theory Spec2Isabelle
  imports Main "HOL-Library.While_Combinator"
begin

section \<open>The multi-function network\<close>

text \<open>
  The evaluator of \<^verbatim>\<open>network.cc\<close> walks an \<^verbatim>\<open>MFNetwork\<close>. Nodes and sockets are
  identified by their ids (\<^verbatim>\<open>node.id()\<close>, \<^verbatim>\<open>socket.id()\<close>); the record below holds the
  accessors of the network that the evaluator calls. A parameter of a function node
  carries the sockets that \<^verbatim>\<open>input_for_param\<close> and \<^verbatim>\<open>output_for_param\<close> return for it.
\<close>

datatype MFDataType = Single | Vector

datatype MFParam =
    SingleInput nat
  | VectorInput nat
  | SingleOutput nat
  | VectorOutput nat
  | MutableSingle nat nat
  | MutableVector nat nat

text \<open>
  A type-erased buffer: one optional element per index (\<open>None\<close> is an unconstructed
  element), or one list per index.
\<close>

datatype 'v buffer = SingleBuffer "nat \<Rightarrow> 'v option" | VectorArray "nat \<Rightarrow> 'v list"

record 'v MFNetwork =
  function_nodes :: "nat list"
  dummy_nodes :: "nat list"
  socket_id_amount :: nat
  is_dummy :: "nat \<Rightarrow> bool"
  node_inputs :: "nat \<Rightarrow> nat list"
  node_params :: "nat \<Rightarrow> MFParam list"
  node_function :: "nat \<Rightarrow> nat list \<Rightarrow> 'v buffer list \<Rightarrow> 'v buffer list"
  is_input :: "nat \<Rightarrow> bool"
  socket_node :: "nat \<Rightarrow> nat"
  category :: "nat \<Rightarrow> MFDataType"
  cpp_type :: "nat \<Rightarrow> nat"
  origin :: "nat \<Rightarrow> nat"
  targets :: "nat \<Rightarrow> nat list"

section \<open>Generic value operations\<close>

text \<open>
  Modelled from the spec: the generic buffer classes (\<^verbatim>\<open>CPPType\<close>,
  \<^verbatim>\<open>GenericVirtualListRef\<close>, \<^verbatim>\<open>GenericVectorArray\<close>) are declared outside the
  evaluator. Section 4.1 gives their operations: construct-copy of a source over the mask,
  extend-by-copy over the mask, and extend-single-by-copy at one index.
\<close>

definition materialize_to_uninitialized ::
  "nat list \<Rightarrow> (nat \<Rightarrow> 'v option) \<Rightarrow> (nat \<Rightarrow> 'v option) \<Rightarrow> (nat \<Rightarrow> 'v option)" where
  "materialize_to_uninitialized msk src dst = (\<lambda>i. if i \<in> set msk then src i else dst i)"

definition copy_to_uninitialized_indices ::
  "(nat \<Rightarrow> 'v option) \<Rightarrow> (nat \<Rightarrow> 'v option) \<Rightarrow> nat list \<Rightarrow> (nat \<Rightarrow> 'v option)" where
  "copy_to_uninitialized_indices src dst msk = (\<lambda>i. if i \<in> set msk then src i else dst i)"

definition extend_single__copy ::
  "nat \<Rightarrow> 'v list \<Rightarrow> (nat \<Rightarrow> 'v list) \<Rightarrow> (nat \<Rightarrow> 'v list)" where
  "extend_single__copy i xs dst = dst(i := dst i @ xs)"

definition extend_multiple__copy ::
  "nat list \<Rightarrow> (nat \<Rightarrow> 'v list) \<Rightarrow> (nat \<Rightarrow> 'v list) \<Rightarrow> (nat \<Rightarrow> 'v list)" where
  "extend_multiple__copy msk src dst = fold (\<lambda>i d. extend_single__copy i (src i) d) msk dst"

section \<open>NetworkEvaluationStorage\<close>

text \<open>
  Every \<^verbatim>\<open>BLI_assert\<close> of the source is a branch of the model that returns the
  matching error: a slot that must be empty is occupied, a slot that must be there is
  \<^verbatim>\<open>nullptr\<close>, the value has the wrong variant (\<^verbatim>\<open>BLI_assert(false)\<close>), the element
  types of origin and output differ, \<open>max_remaining_users\<close> is below one, or
  \<^verbatim>\<open>as_function\<close> is applied to a dummy node. Two more errors stand for behaviour
  that the source leaves undefined: the accessors of \<^verbatim>\<open>MFParams\<close> applied to a parameter
  of another kind (\<open>WrongParamType\<close>), and a read through the address of a buffer that was
  freed (\<open>DanglingBuffer\<close>).
\<close>

datatype error =
    SlotOccupied
  | SlotIsNull
  | WrongValueType
  | TypeMismatch
  | UserCountUnderflow
  | NotAFunctionNode
  | WrongParamType
  | DanglingBuffer

text \<open>
  The four variants of \<^verbatim>\<open>OutputValue\<close>. An owned value holds the address of its buffer
  and \<^verbatim>\<open>max_remaining_users\<close>; a value from the caller holds the read-only view.
\<close>

datatype 'v OutputValue =
    SingleFromCallerValue "nat \<Rightarrow> 'v option"
  | VectorFromCallerValue "nat \<Rightarrow> 'v list"
  | SingleValue nat int
  | VectorValue nat int

text \<open>
  \<open>m_value_per_output_id\<close> is the array of value pointers indexed by socket id
  (\<open>None\<close> is \<^verbatim>\<open>nullptr\<close>), \<open>m_size\<close> its length. No two entries of the array ever point to
  the same value object, so the object is stored in the entry itself. \<open>heap\<close> holds
  the buffers handed out by the array allocator and by \<^verbatim>\<open>new GenericVectorArray\<close>;
  \<open>next_addr\<close> is the next fresh address.
\<close>

record 'v Storage =
  m_mask :: "nat list"
  m_size :: nat
  m_value_per_output_id :: "nat \<Rightarrow> 'v OutputValue option"
  heap :: "nat \<Rightarrow> 'v buffer option"
  next_addr :: nat

definition new_storage :: "nat list \<Rightarrow> nat \<Rightarrow> 'v Storage" where
  "new_storage msk socket_amount =
     \<lparr>m_mask = msk, m_size = socket_amount, m_value_per_output_id = (\<lambda>_. None),
      heap = (\<lambda>_. None), next_addr = 0\<rparr>"

definition destruct_storage :: "'v Storage \<Rightarrow> (nat \<Rightarrow> 'v buffer option)" where
  "destruct_storage st =
     fold (\<lambda>id h. case m_value_per_output_id st id of
                    None \<Rightarrow> h
                  | Some (SingleValue a k) \<Rightarrow> h(a := None)
                  | Some (VectorValue a k) \<Rightarrow> h(a := None)
                  | Some _ \<Rightarrow> h)
          [0..<m_size st] (heap st)"

definition add_single_from_caller ::
  "'v Storage \<Rightarrow> nat \<Rightarrow> (nat \<Rightarrow> 'v option) \<Rightarrow> error + 'v Storage" where
  "add_single_from_caller st socket list_ref =
     (if m_value_per_output_id st socket \<noteq> None then Inl SlotOccupied
      else Inr (st\<lparr>m_value_per_output_id :=
                   (m_value_per_output_id st)(socket \<mapsto> SingleFromCallerValue list_ref)\<rparr>))"

definition add_vector_from_caller ::
  "'v Storage \<Rightarrow> nat \<Rightarrow> (nat \<Rightarrow> 'v list) \<Rightarrow> error + 'v Storage" where
  "add_vector_from_caller st socket list_list_ref =
     (if m_value_per_output_id st socket \<noteq> None then Inl SlotOccupied
      else Inr (st\<lparr>m_value_per_output_id :=
                   (m_value_per_output_id st)(socket \<mapsto> VectorFromCallerValue list_list_ref)\<rparr>))"

definition allocate_single_output ::
  "'v MFNetwork \<Rightarrow> 'v Storage \<Rightarrow> nat \<Rightarrow> error + ('v Storage \<times> nat)" where
  "allocate_single_output g st socket =
     (if m_value_per_output_id st socket \<noteq> None then Inl SlotOccupied
      else let a = next_addr st in
        Inr (st\<lparr>m_value_per_output_id :=
                  (m_value_per_output_id st)
                    (socket \<mapsto> SingleValue a (int (length (targets g socket)))),
                heap := (heap st)(a \<mapsto> SingleBuffer (\<lambda>_. None)),
                next_addr := Suc a\<rparr>, a))"

definition allocate_vector_output ::
  "'v MFNetwork \<Rightarrow> 'v Storage \<Rightarrow> nat \<Rightarrow> error + ('v Storage \<times> nat)" where
  "allocate_vector_output g st socket =
     (if m_value_per_output_id st socket \<noteq> None then Inl SlotOccupied
      else let a = next_addr st in
        Inr (st\<lparr>m_value_per_output_id :=
                  (m_value_per_output_id st)
                    (socket \<mapsto> VectorValue a (int (length (targets g socket)))),
                heap := (heap st)(a \<mapsto> VectorArray (\<lambda>_. [])),
                next_addr := Suc a\<rparr>, a))"

definition get_mutable_single ::
  "'v MFNetwork \<Rightarrow> 'v Storage \<Rightarrow> nat \<Rightarrow> nat \<Rightarrow> error + ('v Storage \<times> nat)" where
  "get_mutable_single g st input output =
     (let from = origin g input; to = output in
      case m_value_per_output_id st from of
        None \<Rightarrow> Inl SlotIsNull
      | Some any_value \<Rightarrow>
          if cpp_type g from \<noteq> cpp_type g to then Inl TypeMismatch
          else (case any_value of
            SingleValue a k \<Rightarrow>
              if k = 1 then
                Inr (st\<lparr>m_value_per_output_id :=
                          ((m_value_per_output_id st)
                             (to \<mapsto> SingleValue a (int (length (targets g to)))))
                             (from := None)\<rparr>, a)
              else (case heap st a of
                  Some (SingleBuffer src) \<Rightarrow>
                    let b = next_addr st in
                    Inr (st\<lparr>m_value_per_output_id :=
                              (m_value_per_output_id st)
                                (to \<mapsto> SingleValue b (int (length (targets g to)))),
                            heap := (heap st)(b \<mapsto> SingleBuffer
                              (copy_to_uninitialized_indices src (\<lambda>_. None) (m_mask st))),
                            next_addr := Suc b\<rparr>, b)
                | _ \<Rightarrow> Inl DanglingBuffer)
          | SingleFromCallerValue list_ref \<Rightarrow>
              let b = next_addr st in
              Inr (st\<lparr>m_value_per_output_id :=
                        (m_value_per_output_id st)
                          (to \<mapsto> SingleValue b (int (length (targets g to)))),
                      heap := (heap st)(b \<mapsto> SingleBuffer
                        (materialize_to_uninitialized (m_mask st) list_ref (\<lambda>_. None))),
                      next_addr := Suc b\<rparr>, b)
          | _ \<Rightarrow> Inl WrongValueType))"

definition get_mutable_vector ::
  "'v MFNetwork \<Rightarrow> 'v Storage \<Rightarrow> nat \<Rightarrow> nat \<Rightarrow> error + ('v Storage \<times> nat)" where
  "get_mutable_vector g st input output =
     (let from = origin g input; to = output in
      case m_value_per_output_id st from of
        None \<Rightarrow> Inl SlotIsNull
      | Some any_value \<Rightarrow>
          if cpp_type g from \<noteq> cpp_type g to then Inl TypeMismatch
          else (case any_value of
            VectorValue a k \<Rightarrow>
              if k = 1 then
                Inr (st\<lparr>m_value_per_output_id :=
                          ((m_value_per_output_id st)
                             (to \<mapsto> VectorValue a (int (length (targets g to)))))
                             (from := None)\<rparr>, a)
              else (case heap st a of
                  Some (VectorArray src) \<Rightarrow>
                    let b = next_addr st in
                    Inr (st\<lparr>m_value_per_output_id :=
                              (m_value_per_output_id st)
                                (to \<mapsto> VectorValue b (int (length (targets g to)))),
                            heap := (heap st)(b \<mapsto> VectorArray
                              (extend_multiple__copy (m_mask st) src (\<lambda>_. []))),
                            next_addr := Suc b\<rparr>, b)
                | _ \<Rightarrow> Inl DanglingBuffer)
          | VectorFromCallerValue list_list_ref \<Rightarrow>
              let b = next_addr st in
              Inr (st\<lparr>m_value_per_output_id :=
                        (m_value_per_output_id st)
                          (to \<mapsto> VectorValue b (int (length (targets g to)))),
                      heap := (heap st)(b \<mapsto> VectorArray
                        (fold (\<lambda>i d. extend_single__copy i (list_list_ref i) d)
                              (m_mask st) (\<lambda>_. []))),
                      next_addr := Suc b\<rparr>, b)
          | _ \<Rightarrow> Inl WrongValueType))"

definition finish_input_socket ::
  "'v MFNetwork \<Rightarrow> 'v Storage \<Rightarrow> nat \<Rightarrow> error + 'v Storage" where
  "finish_input_socket g st socket =
     (let origin_id = origin g socket in
      case m_value_per_output_id st origin_id of
        None \<Rightarrow> Inl SlotIsNull
      | Some (SingleFromCallerValue list_ref) \<Rightarrow> Inr st
      | Some (VectorFromCallerValue list_list_ref) \<Rightarrow> Inr st
      | Some (SingleValue a k) \<Rightarrow>
          if k < 1 then Inl UserCountUnderflow
          else if k - 1 = 0 then
            Inr (st\<lparr>m_value_per_output_id := (m_value_per_output_id st)(origin_id := None),
                    heap := (heap st)(a := None)\<rparr>)
          else
            Inr (st\<lparr>m_value_per_output_id :=
                      (m_value_per_output_id st)(origin_id \<mapsto> SingleValue a (k - 1))\<rparr>)
      | Some (VectorValue a k) \<Rightarrow>
          if k < 1 then Inl UserCountUnderflow
          else if k - 1 = 0 then
            Inr (st\<lparr>m_value_per_output_id := (m_value_per_output_id st)(origin_id := None),
                    heap := (heap st)(a := None)\<rparr>)
          else
            Inr (st\<lparr>m_value_per_output_id :=
                      (m_value_per_output_id st)(origin_id \<mapsto> VectorValue a (k - 1))\<rparr>))"

text \<open>
  A \<^verbatim>\<open>GenericVirtualListRef\<close> or \<^verbatim>\<open>GenericVirtualListListRef\<close> returned by the storage
  either refers to a buffer of the storage or is the view supplied by the caller.
\<close>

datatype 'v virtual_ref = OwnedRef nat | CallerRef "'v buffer"

definition get_single_input ::
  "'v MFNetwork \<Rightarrow> 'v Storage \<Rightarrow> nat \<Rightarrow> error + 'v virtual_ref" where
  "get_single_input g st socket =
     (case m_value_per_output_id st (origin g socket) of
        None \<Rightarrow> Inl SlotIsNull
      | Some (SingleValue a k) \<Rightarrow> Inr (OwnedRef a)
      | Some (SingleFromCallerValue list_ref) \<Rightarrow> Inr (CallerRef (SingleBuffer list_ref))
      | Some _ \<Rightarrow> Inl WrongValueType)"

definition get_vector_input ::
  "'v MFNetwork \<Rightarrow> 'v Storage \<Rightarrow> nat \<Rightarrow> error + 'v virtual_ref" where
  "get_vector_input g st socket =
     (case m_value_per_output_id st (origin g socket) of
        None \<Rightarrow> Inl SlotIsNull
      | Some (VectorValue a k) \<Rightarrow> Inr (OwnedRef a)
      | Some (VectorFromCallerValue list_list_ref) \<Rightarrow>
          Inr (CallerRef (VectorArray list_list_ref))
      | Some _ \<Rightarrow> Inl WrongValueType)"

definition input_is_computed :: "'v MFNetwork \<Rightarrow> 'v Storage \<Rightarrow> nat \<Rightarrow> bool" where
  "input_is_computed g st socket = (m_value_per_output_id st (origin g socket) \<noteq> None)"

section \<open>MF_EvaluateNetwork\<close>

text \<open>
  The trace of one call records the calls of function bodies (\<open>EvCall node\<close>) and the
  calls of \<^verbatim>\<open>finish_input_socket\<close> (\<open>EvFinish input_socket\<close>) in the order in which
  the evaluator makes them. It is kept when an assertion fails.
\<close>

datatype event = EvCall nat | EvFinish nat

text \<open>
  A parameter handed to a function body: a read-only reference, or the address of a
  buffer of the storage that the body may write.
\<close>

datatype 'v bound_param = BoundReadonly "'v virtual_ref" | BoundMutable nat

definition bind_param ::
  "'v MFNetwork \<Rightarrow> 'v Storage \<Rightarrow> MFParam \<Rightarrow> error + ('v Storage \<times> 'v bound_param)" where
  "bind_param g st p =
     (case p of
        SingleInput i \<Rightarrow>
          (case get_single_input g st i of
             Inl e \<Rightarrow> Inl e | Inr values \<Rightarrow> Inr (st, BoundReadonly values))
      | VectorInput i \<Rightarrow>
          (case get_vector_input g st i of
             Inl e \<Rightarrow> Inl e | Inr values \<Rightarrow> Inr (st, BoundReadonly values))
      | SingleOutput out \<Rightarrow>
          (case allocate_single_output g st out of
             Inl e \<Rightarrow> Inl e | Inr (st', a) \<Rightarrow> Inr (st', BoundMutable a))
      | VectorOutput out \<Rightarrow>
          (case allocate_vector_output g st out of
             Inl e \<Rightarrow> Inl e | Inr (st', a) \<Rightarrow> Inr (st', BoundMutable a))
      | MutableSingle i out \<Rightarrow>
          (case get_mutable_single g st i out of
             Inl e \<Rightarrow> Inl e | Inr (st', a) \<Rightarrow> Inr (st', BoundMutable a))
      | MutableVector i out \<Rightarrow>
          (case get_mutable_vector g st i out of
             Inl e \<Rightarrow> Inl e | Inr (st', a) \<Rightarrow> Inr (st', BoundMutable a)))"

fun bind_params ::
  "'v MFNetwork \<Rightarrow> 'v Storage \<Rightarrow> MFParam list \<Rightarrow> error + ('v Storage \<times> 'v bound_param list)"
  where
  "bind_params g st [] = Inr (st, [])"
| "bind_params g st (p # ps) =
     (case bind_param g st p of
        Inl e \<Rightarrow> Inl e
      | Inr (st', b) \<Rightarrow>
          (case bind_params g st' ps of
             Inl e \<Rightarrow> Inl e
           | Inr (st'', bs) \<Rightarrow> Inr (st'', b # bs)))"

text \<open>
  The body of a function is opaque: it maps the mask and the contents of its parameters
  to new contents. The contents it returns for the writable parameters are stored back.
\<close>

definition load_ref :: "(nat \<Rightarrow> 'v buffer option) \<Rightarrow> 'v virtual_ref \<Rightarrow> error + 'v buffer" where
  "load_ref h r =
     (case r of
        CallerRef b \<Rightarrow> Inr b
      | OwnedRef a \<Rightarrow> (case h a of None \<Rightarrow> Inl DanglingBuffer | Some b \<Rightarrow> Inr b))"

fun load_params ::
  "(nat \<Rightarrow> 'v buffer option) \<Rightarrow> 'v bound_param list \<Rightarrow> error + 'v buffer list" where
  "load_params h [] = Inr []"
| "load_params h (b # bs) =
     (case load_ref h (case b of BoundReadonly r \<Rightarrow> r | BoundMutable a \<Rightarrow> OwnedRef a) of
        Inl e \<Rightarrow> Inl e
      | Inr c \<Rightarrow> (case load_params h bs of Inl e \<Rightarrow> Inl e | Inr cs \<Rightarrow> Inr (c # cs)))"

fun store_params ::
  "'v bound_param list \<Rightarrow> 'v buffer list \<Rightarrow> (nat \<Rightarrow> 'v buffer option)
     \<Rightarrow> (nat \<Rightarrow> 'v buffer option)" where
  "store_params (BoundMutable a # bs) (c # cs) h = store_params bs cs (h(a \<mapsto> c))"
| "store_params (BoundReadonly r # bs) (c # cs) h = store_params bs cs h"
| "store_params bs cs h = h"

definition function_call ::
  "'v MFNetwork \<Rightarrow> nat \<Rightarrow> 'v bound_param list \<Rightarrow> 'v Storage \<Rightarrow> error + 'v Storage" where
  "function_call g node bound st =
     (case load_params (heap st) bound of
        Inl e \<Rightarrow> Inl e
      | Inr contents \<Rightarrow>
          Inr (st\<lparr>heap := store_params bound (node_function g node (m_mask st) contents)
                             (heap st)\<rparr>))"

fun finish_inputs ::
  "'v MFNetwork \<Rightarrow> 'v Storage \<Rightarrow> nat list \<Rightarrow> event list \<times> (error + 'v Storage)" where
  "finish_inputs g st [] = ([], Inr st)"
| "finish_inputs g st (socket # sockets) =
     (case finish_input_socket g st socket of
        Inl e \<Rightarrow> ([EvFinish socket], Inl e)
      | Inr st' \<Rightarrow>
          (case finish_inputs g st' sockets of (evs, r) \<Rightarrow> (EvFinish socket # evs, r)))"

definition evaluate_function ::
  "'v MFNetwork \<Rightarrow> nat \<Rightarrow> 'v Storage \<Rightarrow> event list \<times> (error + 'v Storage)" where
  "evaluate_function g function_node st =
     (case bind_params g st (node_params g function_node) of
        Inl e \<Rightarrow> ([], Inl e)
      | Inr (st1, bound) \<Rightarrow>
          (case function_call g function_node bound st1 of
             Inl e \<Rightarrow> ([EvCall function_node], Inl e)
           | Inr st2 \<Rightarrow>
               (case finish_inputs g st2 (node_inputs g function_node) of
                  (evs, r) \<Rightarrow> (EvCall function_node # evs, r))))"

subsection \<open>compute_max_depth_per_node\<close>

text \<open>
  The stack is a list whose head is the top: \<^verbatim>\<open>push\<close> is \<open>#\<close>, \<^verbatim>\<open>push_multiple xs\<close>
  is \<open>rev xs @\<close>. The loop may run forever on a cyclic network, so it is a
  \<open>while_option\<close>: \<open>None\<close> is a loop that never ends.
\<close>

definition check_inputs ::
  "'v MFNetwork \<Rightarrow> (nat \<Rightarrow> int) \<Rightarrow> nat list \<Rightarrow> nat list \<Rightarrow> nat list \<times> bool \<times> int" where
  "check_inputs g depths sockets stack =
     fold (\<lambda>socket (stk, all_inputs_computed, max_incoming_depth).
             let origin_node = socket_node g (origin g socket);
                 origin_depth = depths origin_node
             in if origin_depth = - 1 then (origin_node # stk, False, max_incoming_depth)
                else (stk, all_inputs_computed, max max_incoming_depth origin_depth))
          sockets (stack, True, 0)"

definition depth_step :: "'v MFNetwork \<Rightarrow> nat list \<times> (nat \<Rightarrow> int) \<Rightarrow> nat list \<times> (nat \<Rightarrow> int)"
  where
  "depth_step g s =
     (case s of
        ([], depths) \<Rightarrow> ([], depths)
      | (current # rest, depths) \<Rightarrow>
          if depths current \<ge> 0 then (rest, depths)
          else (case check_inputs g depths (node_inputs g current) (current # rest) of
                  (stk, all_inputs_computed, max_incoming_depth) \<Rightarrow>
                    if \<not> all_inputs_computed then (stk, depths)
                    else (rest, depths(current := max_incoming_depth + 1))))"

definition compute_max_depth_per_node :: "'v MFNetwork \<Rightarrow> (nat \<Rightarrow> int) option" where
  "compute_max_depth_per_node g =
     map_option snd
       (while_option (\<lambda>(stack, depths). stack \<noteq> []) (depth_step g)
          (rev (function_nodes g),
           fold (\<lambda>node depths. depths(node := 0)) (dummy_nodes g) (\<lambda>_. - 1)))"

subsection \<open>evaluate_network_to_compute_outputs\<close>

text \<open>
  One iteration of the loop is \<open>eval_step\<close>; its state is the trace and either a failed
  assertion or the stack and the storage. For an output socket on top, the source pushes
  every missing input in the order of \<^verbatim>\<open>function_node.inputs()\<close> and then the same inputs
  once more, sorted by the depth of the node of their origin, so that the deepest is on
  top. \<^verbatim>\<open>std::sort\<close> leaves the order of inputs of equal depth open; \<open>sort_key\<close> keeps
  them in the order of \<^verbatim>\<open>function_node.inputs()\<close>.
\<close>

type_synonym 'v eval_state = "event list \<times> (error + nat list \<times> 'v Storage)"

definition eval_step :: "'v MFNetwork \<Rightarrow> (nat \<Rightarrow> int) \<Rightarrow> 'v eval_state \<Rightarrow> 'v eval_state" where
  "eval_step g max_depths s =
     (case s of
        (tr, Inl e) \<Rightarrow> (tr, Inl e)
      | (tr, Inr ([], st)) \<Rightarrow> (tr, Inr ([], st))
      | (tr, Inr (socket # rest, st)) \<Rightarrow>
          if is_input g socket then
            (if input_is_computed g st socket then (tr, Inr (rest, st))
             else (tr, Inr (origin g socket # socket # rest, st)))
          else
            let function_node = socket_node g socket in
            if is_dummy g function_node then (tr, Inl NotAFunctionNode)
            else
              let missing_inputs =
                    filter (\<lambda>i. \<not> input_is_computed g st i) (node_inputs g function_node);
                  sorted_inputs =
                    sort_key (\<lambda>i. max_depths (socket_node g (origin g i))) missing_inputs
              in if missing_inputs = [] then
                   (case evaluate_function g function_node st of
                      (evs, Inl e) \<Rightarrow> (tr @ evs, Inl e)
                    | (evs, Inr st') \<Rightarrow> (tr @ evs, Inr (rest, st')))
                 else
                   (tr, Inr (rev sorted_inputs @ rev missing_inputs @ socket # rest, st)))"

definition eval_running :: "'v eval_state \<Rightarrow> bool" where
  "eval_running s = (case s of (tr, Inr (stack, st)) \<Rightarrow> stack \<noteq> [] | (tr, Inl e) \<Rightarrow> False)"

definition evaluate_network_to_compute_outputs ::
  "'v MFNetwork \<Rightarrow> nat list \<Rightarrow> 'v Storage \<Rightarrow> (event list \<times> (error + 'v Storage)) option" where
  "evaluate_network_to_compute_outputs g m_outputs st =
     (case compute_max_depth_per_node g of
        None \<Rightarrow> None
      | Some max_depths \<Rightarrow>
          map_option (\<lambda>(tr, r). (tr, map_sum id snd r))
            (while_option eval_running (eval_step g max_depths)
               ([], Inr (rev m_outputs, st))))"

subsection \<open>Binding the parameters of the call\<close>

text \<open>
  The parameters of the call are indexed by parameter index: first one read-only view per
  socket of \<open>m_inputs\<close>, then one destination per socket of \<open>m_outputs\<close>. The four
  accessors of \<^verbatim>\<open>MFParams\<close> return the parameter at an index when it has the kind that
  is asked for.
\<close>

definition readonly_single_input :: "'v buffer list \<Rightarrow> nat \<Rightarrow> error + (nat \<Rightarrow> 'v option)" where
  "readonly_single_input params index =
     (if index < length params then
        (case params ! index of SingleBuffer v \<Rightarrow> Inr v | _ \<Rightarrow> Inl WrongParamType)
      else Inl WrongParamType)"

definition readonly_vector_input :: "'v buffer list \<Rightarrow> nat \<Rightarrow> error + (nat \<Rightarrow> 'v list)" where
  "readonly_vector_input params index =
     (if index < length params then
        (case params ! index of VectorArray v \<Rightarrow> Inr v | _ \<Rightarrow> Inl WrongParamType)
      else Inl WrongParamType)"

definition copy_input ::
  "'v MFNetwork \<Rightarrow> 'v buffer list \<Rightarrow> nat \<Rightarrow> nat \<Rightarrow> 'v Storage \<Rightarrow> error + 'v Storage" where
  "copy_input g params input_index socket st =
     (case category g socket of
        Single \<Rightarrow>
          (case readonly_single_input params input_index of
             Inl e \<Rightarrow> Inl e
           | Inr input_list \<Rightarrow> add_single_from_caller st socket input_list)
      | Vector \<Rightarrow>
          (case readonly_vector_input params input_index of
             Inl e \<Rightarrow> Inl e
           | Inr input_list_list \<Rightarrow> add_vector_from_caller st socket input_list_list))"

fun copy_inputs_from ::
  "'v MFNetwork \<Rightarrow> 'v buffer list \<Rightarrow> nat \<Rightarrow> nat list \<Rightarrow> 'v Storage \<Rightarrow> error + 'v Storage"
  where
  "copy_inputs_from g params input_index [] st = Inr st"
| "copy_inputs_from g params input_index (socket # sockets) st =
     (case copy_input g params input_index socket st of
        Inl e \<Rightarrow> Inl e
      | Inr st' \<Rightarrow> copy_inputs_from g params (Suc input_index) sockets st')"

definition copy_inputs_to_storage ::
  "'v MFNetwork \<Rightarrow> nat list \<Rightarrow> 'v buffer list \<Rightarrow> 'v Storage \<Rightarrow> error + 'v Storage" where
  "copy_inputs_to_storage g m_inputs params st = copy_inputs_from g params 0 m_inputs st"

definition uninitialized_single_output ::
  "'v buffer list \<Rightarrow> nat \<Rightarrow> error + (nat \<Rightarrow> 'v option)" where
  "uninitialized_single_output params index =
     (if index < length params then
        (case params ! index of SingleBuffer v \<Rightarrow> Inr v | _ \<Rightarrow> Inl WrongParamType)
      else Inl WrongParamType)"

definition vector_output :: "'v buffer list \<Rightarrow> nat \<Rightarrow> error + (nat \<Rightarrow> 'v list)" where
  "vector_output params index =
     (if index < length params then
        (case params ! index of VectorArray v \<Rightarrow> Inr v | _ \<Rightarrow> Inl WrongParamType)
      else Inl WrongParamType)"

definition copy_output ::
  "'v MFNetwork \<Rightarrow> 'v Storage \<Rightarrow> nat \<Rightarrow> nat \<Rightarrow> 'v buffer list \<Rightarrow> error + 'v buffer list"
  where
  "copy_output g st global_param_index socket params =
     (case category g socket of
        Single \<Rightarrow>
          (case get_single_input g st socket of
             Inl e \<Rightarrow> Inl e
           | Inr values \<Rightarrow>
               (case uninitialized_single_output params global_param_index of
                  Inl e \<Rightarrow> Inl e
                | Inr output_values \<Rightarrow>
                    (case load_ref (heap st) values of
                       Inr (SingleBuffer src) \<Rightarrow>
                         Inr (params[global_param_index := SingleBuffer
                           (materialize_to_uninitialized (m_mask st) src output_values)])
                     | _ \<Rightarrow> Inl DanglingBuffer)))
      | Vector \<Rightarrow>
          (case get_vector_input g st socket of
             Inl e \<Rightarrow> Inl e
           | Inr values \<Rightarrow>
               (case vector_output params global_param_index of
                  Inl e \<Rightarrow> Inl e
                | Inr output_values \<Rightarrow>
                    (case load_ref (heap st) values of
                       Inr (VectorArray src) \<Rightarrow>
                         Inr (params[global_param_index := VectorArray
                           (extend_multiple__copy (m_mask st) src output_values)])
                     | _ \<Rightarrow> Inl DanglingBuffer))))"

fun copy_outputs_from ::
  "'v MFNetwork \<Rightarrow> nat \<Rightarrow> 'v Storage \<Rightarrow> nat \<Rightarrow> nat list \<Rightarrow> 'v buffer list
     \<Rightarrow> error + 'v buffer list" where
  "copy_outputs_from g n_inputs st output_index [] params = Inr params"
| "copy_outputs_from g n_inputs st output_index (socket # sockets) params =
     (case copy_output g st (n_inputs + output_index) socket params of
        Inl e \<Rightarrow> Inl e
      | Inr params' \<Rightarrow> copy_outputs_from g n_inputs st (Suc output_index) sockets params')"

definition copy_computed_values_to_outputs ::
  "'v MFNetwork \<Rightarrow> nat list \<Rightarrow> nat list \<Rightarrow> 'v Storage \<Rightarrow> 'v buffer list
     \<Rightarrow> error + 'v buffer list" where
  "copy_computed_values_to_outputs g m_inputs m_outputs st params =
     copy_outputs_from g (length m_inputs) st 0 m_outputs params"

subsection \<open>call\<close>

text \<open>
  The result of a call: the trace, and either the failed assertion or the parameters of
  the caller after the call together with the heap that the destructor of the storage
  leaves behind.
\<close>

definition call ::
  "'v MFNetwork \<Rightarrow> nat list \<Rightarrow> nat list \<Rightarrow> nat list \<Rightarrow> 'v buffer list
     \<Rightarrow> (event list \<times> (error + 'v buffer list \<times> (nat \<Rightarrow> 'v buffer option))) option" where
  "call g m_inputs m_outputs msk params =
     (if length msk = 0 then Some ([], Inr (params, (\<lambda>_. None)))
      else
        let storage = new_storage msk (socket_id_amount g) in
        (case copy_inputs_to_storage g m_inputs params storage of
           Inl e \<Rightarrow> Some ([], Inl e)
         | Inr st1 \<Rightarrow>
             (case evaluate_network_to_compute_outputs g m_outputs st1 of
                None \<Rightarrow> None
              | Some (tr, Inl e) \<Rightarrow> Some (tr, Inl e)
              | Some (tr, Inr st2) \<Rightarrow>
                  (case copy_computed_values_to_outputs g m_inputs m_outputs st2 params of
                     Inl e \<Rightarrow> Some (tr, Inl e)
                   | Inr params' \<Rightarrow> Some (tr, Inr (params', destruct_storage st2))))))"

section \<open>Well-formed networks\<close>

text \<open>
  \<^verbatim>\<open>network.h\<close> declares the network; the evaluator relies on its structure. The sockets
  of a network are the ids below \<open>socket_id_amount\<close>, its nodes are the function nodes and
  the dummy nodes. \<open>param_inputs\<close> and \<open>param_outputs\<close> are the sockets of a parameter,
  \<open>node_outputs\<close> the output sockets that the parameters of a node bind.
\<close>

definition sockets :: "'v MFNetwork \<Rightarrow> nat list" where
  "sockets g = [0..<socket_id_amount g]"

definition nodes :: "'v MFNetwork \<Rightarrow> nat list" where
  "nodes g = function_nodes g @ dummy_nodes g"

fun param_inputs :: "MFParam \<Rightarrow> nat list" where
  "param_inputs (SingleInput i) = [i]"
| "param_inputs (VectorInput i) = [i]"
| "param_inputs (SingleOutput out) = []"
| "param_inputs (VectorOutput out) = []"
| "param_inputs (MutableSingle i out) = [i]"
| "param_inputs (MutableVector i out) = [i]"

fun param_outputs :: "MFParam \<Rightarrow> nat list" where
  "param_outputs (SingleInput i) = []"
| "param_outputs (VectorInput i) = []"
| "param_outputs (SingleOutput out) = [out]"
| "param_outputs (VectorOutput out) = [out]"
| "param_outputs (MutableSingle i out) = [out]"
| "param_outputs (MutableVector i out) = [out]"

definition node_outputs :: "'v MFNetwork \<Rightarrow> nat \<Rightarrow> nat list" where
  "node_outputs g n = concat (map param_outputs (node_params g n))"

text \<open>
  Modelled from the spec: \<^verbatim>\<open>network.h\<close> keeps these invariants of the graph (every
  input socket has exactly one origin, the targets of an output socket are the input
  sockets that consume it, socket ids are dense). A network is well formed when:
  function nodes and dummy nodes are told apart by
  \<open>is_dummy\<close> and every socket belongs to a node; every input socket is listed among the
  inputs of its node, has an output socket as origin and is a target of that origin; the
  inputs of a node are distinct sockets of that node; the targets of an output socket are
  distinct input sockets whose origin it is; the parameters of a function node bind each
  output socket of the node exactly once and take their inputs from the inputs of the node.
\<close>

definition wf_nodes :: "'v MFNetwork \<Rightarrow> bool" where
  "wf_nodes g \<longleftrightarrow>
     (\<forall>n \<in> set (function_nodes g). \<not> is_dummy g n) \<and>
     (\<forall>n \<in> set (dummy_nodes g). is_dummy g n) \<and>
     (\<forall>s \<in> set (sockets g). socket_node g s \<in> set (nodes g))"

definition wf_inputs :: "'v MFNetwork \<Rightarrow> bool" where
  "wf_inputs g \<longleftrightarrow>
     (\<forall>s \<in> set (sockets g). is_input g s \<longrightarrow>
        s \<in> set (node_inputs g (socket_node g s)) \<and> origin g s \<in> set (sockets g) \<and>
        \<not> is_input g (origin g s) \<and> s \<in> set (targets g (origin g s))) \<and>
     (\<forall>n \<in> set (nodes g). distinct (node_inputs g n) \<and>
        (\<forall>i \<in> set (node_inputs g n).
           i \<in> set (sockets g) \<and> is_input g i \<and> socket_node g i = n))"

definition wf_outputs :: "'v MFNetwork \<Rightarrow> bool" where
  "wf_outputs g \<longleftrightarrow>
     (\<forall>s \<in> set (sockets g). \<not> is_input g s \<longrightarrow> distinct (targets g s) \<and>
        (\<forall>t \<in> set (targets g s). t \<in> set (sockets g) \<and> is_input g t \<and> origin g t = s)) \<and>
     (\<forall>s \<in> set (sockets g). \<not> is_input g s \<and> \<not> is_dummy g (socket_node g s) \<longrightarrow>
        s \<in> set (node_outputs g (socket_node g s)))"

definition wf_params :: "'v MFNetwork \<Rightarrow> bool" where
  "wf_params g \<longleftrightarrow>
     (\<forall>n \<in> set (function_nodes g). distinct (node_outputs g n) \<and>
        (\<forall>out \<in> set (node_outputs g n).
           out \<in> set (sockets g) \<and> \<not> is_input g out \<and> socket_node g out = n) \<and>
        (\<forall>p \<in> set (node_params g n). \<forall>i \<in> set (param_inputs p).
           i \<in> set (node_inputs g n)))"

definition wf_network :: "'v MFNetwork \<Rightarrow> bool" where
  "wf_network g \<longleftrightarrow> wf_nodes g \<and> wf_inputs g \<and> wf_outputs g \<and> wf_params g"

text \<open>
  The network is acyclic when its nodes can be ranked so that every function node ranks
  above the nodes that produce its inputs.
\<close>

definition ranked :: "'v MFNetwork \<Rightarrow> (nat \<Rightarrow> nat) \<Rightarrow> bool" where
  "ranked g r \<longleftrightarrow>
     (\<forall>n \<in> set (function_nodes g). \<forall>i \<in> set (node_inputs g n).
        r (socket_node g (origin g i)) < r n)"

definition is_acyclic :: "'v MFNetwork \<Rightarrow> bool" where
  "is_acyclic g \<longleftrightarrow> (\<exists>r. ranked g r)"

text \<open>
  The constructor of \<^verbatim>\<open>MF_EvaluateNetwork\<close> asserts that the sockets of \<open>m_inputs\<close> are
  output sockets of dummy nodes and the sockets of \<open>m_outputs\<close> input sockets of dummy
  nodes.
\<close>

definition wf_io :: "'v MFNetwork \<Rightarrow> nat list \<Rightarrow> nat list \<Rightarrow> bool" where
  "wf_io g m_inputs m_outputs \<longleftrightarrow>
     (\<forall>s \<in> set m_inputs. s \<in> set (sockets g) \<and> \<not> is_input g s \<and> is_dummy g (socket_node g s)) \<and>
     (\<forall>s \<in> set m_outputs. s \<in> set (sockets g) \<and> is_input g s \<and> is_dummy g (socket_node g s))"

section \<open>Reading the trace\<close>

text \<open>
  \<open>calls\<close> lists the nodes whose body was called, \<open>finishes\<close> the input sockets passed
  to \<^verbatim>\<open>finish_input_socket\<close>, both in order. \<open>finish_count\<close> counts the calls of
  \<^verbatim>\<open>finish_input_socket\<close> made against the slot of one output socket.
\<close>

fun calls :: "event list \<Rightarrow> nat list" where
  "calls [] = []"
| "calls (EvCall n # tr) = n # calls tr"
| "calls (EvFinish i # tr) = calls tr"





section \<open>Invariants\<close>

subsection \<open>Slots\<close>

text \<open>
  \<open>is_owned v n\<close>: the slot holds an owned value with \<open>n\<close> remaining users.
  \<open>remaining g E out\<close> is the number of targets of \<open>out\<close> whose node is not in \<open>E\<close>.
\<close>

fun is_owned :: "'v OutputValue option \<Rightarrow> int \<Rightarrow> bool" where
  "is_owned (Some (SingleValue a k)) n = (k = n)"
| "is_owned (Some (VectorValue a k)) n = (k = n)"
| "is_owned _ n = False"

fun is_from_caller :: "'v OutputValue option \<Rightarrow> bool" where
  "is_from_caller (Some (SingleFromCallerValue v)) = True"
| "is_from_caller (Some (VectorFromCallerValue v)) = True"
| "is_from_caller _ = False"

definition remaining :: "'v MFNetwork \<Rightarrow> nat set \<Rightarrow> nat \<Rightarrow> int" where
  "remaining g E out = int (length (filter (\<lambda>t. socket_node g t \<notin> E) (targets g out)))"

text \<open>
  \<open>finished v c v'\<close> relates a slot before and after \<open>c\<close> calls of
  \<^verbatim>\<open>finish_input_socket\<close> against it. \<open>moved_or_same\<close> relates a slot before and after the
  parameters of a node are bound, for a socket that is not an output of the node: the slot
  is unchanged, or it held an owned value with one remaining user that a mutable
  parameter took over.
\<close>

definition finished :: "'v OutputValue option \<Rightarrow> nat \<Rightarrow> 'v OutputValue option \<Rightarrow> bool" where
  "finished v c v' \<longleftrightarrow>
     (if c = 0 then v' = v
      else (case v of
              None \<Rightarrow> False
            | Some (SingleFromCallerValue x) \<Rightarrow> v' = v
            | Some (VectorFromCallerValue x) \<Rightarrow> v' = v
            | Some (SingleValue a k) \<Rightarrow>
                int c \<le> k \<and> v' = (if k = int c then None else Some (SingleValue a (k - int c)))
            | Some (VectorValue a k) \<Rightarrow>
                int c \<le> k \<and> v' = (if k = int c then None else Some (VectorValue a (k - int c)))))"

definition moved_or_same :: "'v MFNetwork \<Rightarrow> nat list \<Rightarrow> 'v OutputValue option \<Rightarrow> 'v OutputValue option \<Rightarrow> nat \<Rightarrow> bool" where
  "moved_or_same g ins v v' s \<longleftrightarrow>
     v' = v \<or> (v' = None \<and> is_owned v 1 \<and> s \<in> origin g ` set ins)"

text \<open>
  The state of the slots when the nodes in \<open>E\<close> have been evaluated: a socket of
  \<open>m_inputs\<close> holds the value that the caller bound (\<open>tab0\<close>); an output of a node that
  was not evaluated holds nothing; an output of an evaluated node holds an owned value
  whose count is the number of its targets that still wait for their node, and holds
  nothing once all of its targets (at least one) are served. \<open>closed\<close>: every input of
  an evaluated node comes from the caller or from an evaluated node.
\<close>

definition slot_ok ::
  "'v MFNetwork \<Rightarrow> nat list \<Rightarrow> (nat \<Rightarrow> 'v OutputValue option) \<Rightarrow> nat set
     \<Rightarrow> (nat \<Rightarrow> 'v OutputValue option) \<Rightarrow> nat \<Rightarrow> bool" where
  "slot_ok g m_inputs tab0 E tab out \<longleftrightarrow>
     (if out \<in> set m_inputs then tab out = tab0 out \<and> is_from_caller (tab0 out)
      else if is_dummy g (socket_node g out) \<or> socket_node g out \<notin> E then tab out = None
      else if remaining g E out = 0 \<and> targets g out \<noteq> [] then tab out = None
      else is_owned (tab out) (remaining g E out))"

definition slots_ok ::
  "'v MFNetwork \<Rightarrow> nat list \<Rightarrow> (nat \<Rightarrow> 'v OutputValue option) \<Rightarrow> nat set
     \<Rightarrow> 'v Storage \<Rightarrow> bool" where
  "slots_ok g m_inputs tab0 E st \<longleftrightarrow>
     (\<forall>out \<in> set (sockets g). \<not> is_input g out \<longrightarrow>
        slot_ok g m_inputs tab0 E (m_value_per_output_id st) out)"

definition closed :: "'v MFNetwork \<Rightarrow> nat list \<Rightarrow> nat set \<Rightarrow> bool" where
  "closed g m_inputs E \<longleftrightarrow>
     E \<subseteq> set (function_nodes g) \<and>
     (\<forall>n \<in> E. \<forall>i \<in> set (node_inputs g n).
        origin g i \<in> set m_inputs \<or> socket_node g (origin g i) \<in> E)"

subsection \<open>The scheduler loop\<close>

text \<open>
  The level of a socket orders the stack: an input socket lies just above the level of its
  origin, the output sockets of a node lie above the inputs of the node. In a good stack
  every socket is a socket of the network, an output socket belongs to a node that was not
  evaluated, an input socket belongs to a dummy node or lies above an output socket of its
  own node, and everything above an output socket has a smaller level.
\<close>

definition level :: "'v MFNetwork \<Rightarrow> (nat \<Rightarrow> nat) \<Rightarrow> nat \<Rightarrow> nat" where
  "level g r s =
     (if is_input g s then 2 * r (socket_node g (origin g s)) + 1 else 2 * r (socket_node g s))"

fun stack_ok :: "'v MFNetwork \<Rightarrow> (nat \<Rightarrow> nat) \<Rightarrow> nat set \<Rightarrow> nat list \<Rightarrow> bool" where
  "stack_ok g r E [] = True"
| "stack_ok g r E (s # rest) =
     (stack_ok g r E rest \<and> s \<in> set (sockets g) \<and>
      (if is_input g s
       then is_dummy g (socket_node g s) \<or>
            (\<exists>out \<in> set rest. \<not> is_input g out \<and> socket_node g out = socket_node g s)
       else socket_node g s \<notin> E) \<and>
      (\<forall>out \<in> set rest. \<not> is_input g out \<longrightarrow> level g r s < level g r out))"

text \<open>
  The invariant of the loop of \<^verbatim>\<open>evaluate_network_to_compute_outputs\<close>: no node was
  called twice, the slots are as described above for the set of called nodes, the stack is
  good, and every requested socket is still on the stack or has its origin computed.
\<close>

definition eval_inv ::
  "'v MFNetwork \<Rightarrow> (nat \<Rightarrow> nat) \<Rightarrow> nat list \<Rightarrow> nat list \<Rightarrow> (nat \<Rightarrow> 'v OutputValue option)
     \<Rightarrow> 'v eval_state \<Rightarrow> bool" where
  "eval_inv g r m_inputs m_outputs tab0 s =
     (case s of
        (tr, Inl e) \<Rightarrow> distinct (calls tr)
      | (tr, Inr (stk, st)) \<Rightarrow>
          distinct (calls tr) \<and>
          slots_ok g m_inputs tab0 (set (calls tr)) st \<and>
          closed g m_inputs (set (calls tr)) \<and>
          stack_ok g r (set (calls tr)) stk \<and>
          (\<forall>q \<in> set m_outputs. q \<in> set stk \<or> origin g q \<in> set m_inputs \<or>
             socket_node g (origin g q) \<in> set (calls tr)))"

text \<open>
  The variant of the loop, in lexicographic order: the number of function nodes not yet
  called; whether the top of the stack is a computed input socket; the height of the stack
  when it is, the level of the top when it is not.
\<close>

definition eval_m1 :: "'v MFNetwork \<Rightarrow> 'v eval_state \<Rightarrow> nat" where
  "eval_m1 g s =
     (case s of
        (tr, Inl e) \<Rightarrow> 0
      | (tr, Inr (stk, st)) \<Rightarrow> Suc (card (set (function_nodes g) - set (calls tr))))"

definition top_done :: "'v MFNetwork \<Rightarrow> 'v eval_state \<Rightarrow> bool" where
  "top_done g s =
     (case s of
        (tr, Inr (x # rest, st)) \<Rightarrow> is_input g x \<and> input_is_computed g st x
      | _ \<Rightarrow> False)"

definition eval_m2 :: "'v MFNetwork \<Rightarrow> 'v eval_state \<Rightarrow> nat" where
  "eval_m2 g s = (if top_done g s then 1 else 0)"

definition eval_m3 :: "'v MFNetwork \<Rightarrow> (nat \<Rightarrow> nat) \<Rightarrow> 'v eval_state \<Rightarrow> nat" where
  "eval_m3 g r s =
     (case s of
        (tr, Inr (x # rest, st)) \<Rightarrow>
          if top_done g s then length (x # rest) else level g r x
      | _ \<Rightarrow> 0)"




subsection \<open>The depth loop\<close>

text \<open>
  \<open>depth_correct\<close>: the depth of a function node is one more than the greatest depth of
  the nodes that produce its inputs (one when it has no input), and all of these have a
  depth. The invariant of the loop of \<^verbatim>\<open>compute_max_depth_per_node\<close>: the stack holds
  nodes of the network, dummy nodes have depth 0, a function node has no depth yet
  (\<open>- 1\<close>) or a correct one, and a function node without depth is on the stack. The
  variant is built like that of the scheduler loop.
\<close>

definition origin_node :: "'v MFNetwork \<Rightarrow> nat \<Rightarrow> nat" where
  "origin_node g i = socket_node g (origin g i)"

definition depth_correct :: "'v MFNetwork \<Rightarrow> (nat \<Rightarrow> int) \<Rightarrow> nat \<Rightarrow> bool" where
  "depth_correct g d n \<longleftrightarrow>
     (\<forall>i \<in> set (node_inputs g n). 0 \<le> d (origin_node g i)) \<and>
     d n = 1 + Max (insert 0 (d ` origin_node g ` set (node_inputs g n)))"

definition depth_inv :: "'v MFNetwork \<Rightarrow> nat list \<times> (nat \<Rightarrow> int) \<Rightarrow> bool" where
  "depth_inv g s =
     (case s of (stk, d) \<Rightarrow>
        (\<forall>n \<in> set stk. n \<in> set (nodes g)) \<and>
        (\<forall>n. - 1 \<le> d n) \<and>
        (\<forall>n \<in> set (dummy_nodes g). d n = 0) \<and>
        (\<forall>n \<in> set (function_nodes g). d n = - 1 \<or> depth_correct g d n) \<and>
        (\<forall>n \<in> set (function_nodes g). d n = - 1 \<longrightarrow> n \<in> set stk))"

definition depth_m1 :: "'v MFNetwork \<Rightarrow> nat list \<times> (nat \<Rightarrow> int) \<Rightarrow> nat" where
  "depth_m1 g s = (case s of (stk, d) \<Rightarrow> card {n \<in> set (nodes g). d n = - 1})"

definition depth_m2 :: "nat list \<times> (nat \<Rightarrow> int) \<Rightarrow> nat" where
  "depth_m2 s = (case s of (x # xs, d) \<Rightarrow> if 0 \<le> d x then 1 else 0 | ([], d) \<Rightarrow> 0)"

definition depth_m3 :: "(nat \<Rightarrow> nat) \<Rightarrow> nat list \<times> (nat \<Rightarrow> int) \<Rightarrow> nat" where
  "depth_m3 r s =
     (case s of (x # xs, d) \<Rightarrow> if 0 \<le> d x then length (x # xs) else r x | ([], d) \<Rightarrow> 0)"

section \<open>Example networks\<close>

text \<open>
  \<open>example_network\<close>: a dummy node 0 with the output sockets 0 and 5, a function node 1
  that reads socket 0 through its input socket 1 and writes its output socket 2, and a
  dummy node 2 with the input sockets 3 (fed by socket 2) and 4 (fed by socket 5). A call
  binds the sockets 0 and 5 and requests the sockets 3 and 4; socket 4 is a passthrough of
  the caller's second input. \<open>example_storage\<close> is the storage after the inputs of that
  call are bound.
\<close>

definition example_network :: "int MFNetwork" where
  "example_network =
     \<lparr>function_nodes = [1], dummy_nodes = [0, 2], socket_id_amount = 6,
      is_dummy = (\<lambda>n. n \<noteq> 1),
      node_inputs = (\<lambda>n. if n = 1 then [1] else if n = 2 then [3, 4] else []),
      node_params = (\<lambda>n. if n = 1 then [SingleInput 1, SingleOutput 2] else []),
      node_function = (\<lambda>n msk bs.
         case bs of
           [SingleBuffer src, out] \<Rightarrow>
             [SingleBuffer src,
              SingleBuffer (\<lambda>i. if i \<in> set msk then map_option (\<lambda>v. v + 1) (src i) else None)]
         | _ \<Rightarrow> bs),
      is_input = (\<lambda>s. s = 1 \<or> s = 3 \<or> s = 4),
      socket_node = (\<lambda>s. if s = 0 \<or> s = 5 then 0 else if s = 1 \<or> s = 2 then 1 else 2),
      category = (\<lambda>s. Single),
      cpp_type = (\<lambda>s. 0),
      origin = (\<lambda>s. if s = 1 then 0 else if s = 3 then 2 else 5),
      targets = (\<lambda>s. if s = 0 then [1] else if s = 2 then [3] else if s = 5 then [4] else [])\<rparr>"

definition example_params :: "int buffer list" where
  "example_params =
     [SingleBuffer (\<lambda>i. Some (10 * int i)), SingleBuffer (\<lambda>i. Some (7 + int i)),
      SingleBuffer (\<lambda>i. None), SingleBuffer (\<lambda>i. None)]"


text \<open>
  \<open>chain_network\<close>: a function node 0 without inputs writes socket 0; a function node 1
  with one mutable parameter takes socket 0 through its input socket 1 and hands it on as
  its output socket 2; the dummy node 2 requests socket 2 through its input socket 3.
  \<open>slot_storage v\<close> is a storage whose only slot, at socket 0, holds \<open>v\<close>.
\<close>

definition chain_network :: "int MFNetwork" where
  "chain_network =
     \<lparr>function_nodes = [0, 1], dummy_nodes = [2], socket_id_amount = 4,
      is_dummy = (\<lambda>n. n = 2),
      node_inputs = (\<lambda>n. if n = 1 then [1] else if n = 2 then [3] else []),
      node_params = (\<lambda>n. if n = 0 then [SingleOutput 0]
                           else if n = 1 then [MutableSingle 1 2] else []),
      node_function = (\<lambda>n msk bs.
         if n = 0 then [SingleBuffer (\<lambda>i. if i \<in> set msk then Some 7 else None)] else bs),
      is_input = (\<lambda>s. s = 1 \<or> s = 3),
      socket_node = (\<lambda>s. if s = 0 then 0 else if s = 3 then 2 else 1),
      category = (\<lambda>s. Single),
      cpp_type = (\<lambda>s. 0),
      origin = (\<lambda>s. if s = 1 then 0 else 2),
      targets = (\<lambda>s. if s = 0 then [1] else if s = 2 then [3] else [])\<rparr>"

definition slot_storage :: "int OutputValue \<Rightarrow> int Storage" where
  "slot_storage v =
     \<lparr>m_mask = [0, 1], m_size = 4, m_value_per_output_id = (\<lambda>_. None)(0 \<mapsto> v),
      heap = (\<lambda>_. None)(0 \<mapsto> SingleBuffer (\<lambda>i. Some 7)), next_addr = 1\<rparr>"

section \<open>Lemmas\<close>

subsection \<open>finish_input_socket and the binding of parameters\<close>

lemma finish_input_socket_table:
  assumes "finish_input_socket g st i = Inr st'"
  shows "finished (m_value_per_output_id st (origin g i)) 1 (m_value_per_output_id st' (origin g i))"
    and "s \<noteq> origin g i \<Longrightarrow> m_value_per_output_id st' s = m_value_per_output_id st s"
  using assms
  by (auto simp: finish_input_socket_def finished_def Let_def
           split: option.splits OutputValue.splits if_splits)

lemma finished_step:
  assumes "finished v 1 v1" "finished v1 c v'"
  shows "finished v (Suc c) v'"
  using assms
  by (auto simp: finished_def split: option.splits OutputValue.splits if_splits)

lemma finish_inputs_table:
  "finish_inputs g st is = (evs, Inr st') \<Longrightarrow>
   finished (m_value_per_output_id st s) (length (filter (\<lambda>i. origin g i = s) is))
            (m_value_per_output_id st' s)"
proof (induction "is" arbitrary: st evs)
  case Nil
  then show ?case by (simp add: finished_def)
next
  case (Cons i "is")
  from Cons.prems obtain st1 evs1 where
    s1: "finish_input_socket g st i = Inr st1" and
    s2: "finish_inputs g st1 is = (evs1, Inr st')"
    by (auto split: sum.splits prod.splits)
  note ih = Cons.IH[OF s2]
  show ?case
  proof (cases "origin g i = s")
    case True
    with finish_input_socket_table(1)[OF s1] ih show ?thesis
      by (simp add: finished_step)
  next
    case False
    with finish_input_socket_table(2)[OF s1, of s] ih show ?thesis by simp
  qed
qed

lemma finish_inputs_events:
  "finish_inputs g st is = (evs, r) \<Longrightarrow> \<exists>n. evs = map EvFinish (take n is)"
proof (induction "is" arbitrary: st evs r)
  case Nil
  then show ?case by simp
next
  case (Cons i "is")
  show ?case
  proof (cases "finish_input_socket g st i")
    case (Inl e)
    with Cons.prems have "evs = map EvFinish (take 1 (i # is))" by simp
    then show ?thesis by blast
  next
    case (Inr st1)
    with Cons.prems obtain evs1 where e: "finish_inputs g st1 is = (evs1, r)" "evs = EvFinish i # evs1"
      by (auto split: prod.splits)
    from Cons.IH[OF e(1)] obtain n where "evs1 = map EvFinish (take n is)" by blast
    with e(2) have "evs = map EvFinish (take (Suc n) (i # is))" by simp
    then show ?thesis by blast
  qed
qed


lemma bind_param_table:
  assumes "bind_param g st p = Inr (st', b)"
    and "\<forall>i \<in> set (param_inputs p). origin g i \<notin> set (param_outputs p)"
  shows "s \<notin> set (param_outputs p) \<Longrightarrow>
           moved_or_same g (param_inputs p) (m_value_per_output_id st s) (m_value_per_output_id st' s) s"
    and "s \<in> set (param_outputs p) \<Longrightarrow>
           is_owned (m_value_per_output_id st' s) (int (length (targets g s)))"
  using assms
  by (cases p;
      auto simp: bind_param_def moved_or_same_def get_single_input_def get_vector_input_def
                 allocate_single_output_def allocate_vector_output_def
                 get_mutable_single_def get_mutable_vector_def Let_def
           split: sum.splits option.splits OutputValue.splits if_splits buffer.splits)+

lemma moved_or_same_mono:
  "moved_or_same g ins v v' s \<Longrightarrow> set ins \<subseteq> set ins' \<Longrightarrow> moved_or_same g ins' v v' s"
  by (auto simp: moved_or_same_def)

lemma moved_or_same_trans:
  "moved_or_same g ins1 v v1 s \<Longrightarrow> moved_or_same g ins2 v1 v' s \<Longrightarrow>
   moved_or_same g (ins1 @ ins2) v v' s"
  by (auto simp: moved_or_same_def)

lemma bind_params_table:
  assumes "bind_params g st ps = Inr (st', bs)"
    and "distinct (concat (map param_outputs ps))"
    and "\<forall>p \<in> set ps. \<forall>i \<in> set (param_inputs p). origin g i \<notin> Outs"
    and "set (concat (map param_outputs ps)) \<subseteq> Outs"
  shows "(s \<notin> set (concat (map param_outputs ps)) \<longrightarrow>
           moved_or_same g (concat (map param_inputs ps))
             (m_value_per_output_id st s) (m_value_per_output_id st' s) s) \<and>
         (s \<in> set (concat (map param_outputs ps)) \<longrightarrow>
           is_owned (m_value_per_output_id st' s) (int (length (targets g s))))"
  using assms
proof (induction ps arbitrary: st bs)
  case Nil
  then show ?case by (simp add: moved_or_same_def)
next
  case (Cons p ps)
  from Cons.prems(1) obtain st1 b bs1 where
    b1: "bind_param g st p = Inr (st1, b)" and
    b2: "bind_params g st1 ps = Inr (st', bs1)"
    by (auto split: sum.splits prod.splits)
  have d: "distinct (concat (map param_outputs ps))"
    and disj: "set (param_outputs p) \<inter> set (concat (map param_outputs ps)) = {}"
    using Cons.prems(2) by auto
  have o1: "\<forall>i \<in> set (param_inputs p). origin g i \<notin> set (param_outputs p)"
    using Cons.prems(3,4) by auto
  have ih: "(s \<notin> set (concat (map param_outputs ps)) \<longrightarrow>
           moved_or_same g (concat (map param_inputs ps))
             (m_value_per_output_id st1 s) (m_value_per_output_id st' s) s) \<and>
         (s \<in> set (concat (map param_outputs ps)) \<longrightarrow>
           is_owned (m_value_per_output_id st' s) (int (length (targets g s))))"
    using Cons.IH[OF b2 d] Cons.prems(3,4) by auto
  show ?case
  proof (intro conjI impI)
    assume "s \<notin> set (concat (map param_outputs (p # ps)))"
    then have n1: "s \<notin> set (param_outputs p)" and n2: "s \<notin> set (concat (map param_outputs ps))"
      by auto
    from bind_param_table(1)[OF b1 o1 n1] ih n2
    show "moved_or_same g (concat (map param_inputs (p # ps)))
             (m_value_per_output_id st s) (m_value_per_output_id st' s) s"
      by (simp add: moved_or_same_trans)
  next
    assume a: "s \<in> set (concat (map param_outputs (p # ps)))"
    show "is_owned (m_value_per_output_id st' s) (int (length (targets g s)))"
    proof (cases "s \<in> set (param_outputs p)")
      case True
      then have n2: "s \<notin> set (concat (map param_outputs ps))" using disj by auto
      have own: "is_owned (m_value_per_output_id st1 s) (int (length (targets g s)))"
        by (rule bind_param_table(2)[OF b1 o1 True])
      have sOut: "s \<in> Outs" using Cons.prems(4) True by auto
      have "s \<notin> origin g ` set (concat (map param_inputs ps))"
        using Cons.prems(3) sOut by auto
      with ih n2 have "m_value_per_output_id st' s = m_value_per_output_id st1 s"
        by (auto simp: moved_or_same_def)
      with own show ?thesis by simp
    next
      case False
      with a have "s \<in> set (concat (map param_outputs ps))" by auto
      with ih show ?thesis by simp
    qed
  qed
qed

lemma function_call_table:
  "function_call g n bound st = Inr st' \<Longrightarrow> m_value_per_output_id st' = m_value_per_output_id st"
  by (auto simp: function_call_def split: sum.splits)

subsection \<open>Facts of a well-formed network\<close>

lemma wf_function_not_dummy: "wf_network g \<Longrightarrow> n \<in> set (function_nodes g) \<Longrightarrow> \<not> is_dummy g n"
  unfolding wf_network_def wf_nodes_def by blast

lemma wf_input_socket:
  "wf_network g \<Longrightarrow> s \<in> set (sockets g) \<Longrightarrow> is_input g s \<Longrightarrow>
     s \<in> set (node_inputs g (socket_node g s)) \<and> origin g s \<in> set (sockets g) \<and>
     \<not> is_input g (origin g s) \<and> s \<in> set (targets g (origin g s)) \<and>
     socket_node g s \<in> set (nodes g)"
  unfolding wf_network_def wf_nodes_def wf_inputs_def by blast

lemma wf_node_inputs:
  "wf_network g \<Longrightarrow> n \<in> set (nodes g) \<Longrightarrow>
     distinct (node_inputs g n) \<and>
     (\<forall>i \<in> set (node_inputs g n). i \<in> set (sockets g) \<and> is_input g i \<and> socket_node g i = n)"
  unfolding wf_network_def wf_inputs_def by blast

lemma wf_function_inputs:
  "wf_network g \<Longrightarrow> n \<in> set (function_nodes g) \<Longrightarrow> i \<in> set (node_inputs g n) \<Longrightarrow>
     i \<in> set (sockets g) \<and> is_input g i \<and> socket_node g i = n \<and>
     origin g i \<in> set (sockets g) \<and> \<not> is_input g (origin g i) \<and> i \<in> set (targets g (origin g i))"
  using wf_node_inputs[of g n] wf_input_socket[of g i] by (auto simp: nodes_def)

lemma wf_targets:
  "wf_network g \<Longrightarrow> s \<in> set (sockets g) \<Longrightarrow> \<not> is_input g s \<Longrightarrow>
     distinct (targets g s) \<and>
     (\<forall>t \<in> set (targets g s). t \<in> set (sockets g) \<and> is_input g t \<and> origin g t = s)"
  unfolding wf_network_def wf_outputs_def by blast

lemma wf_node_outputs:
  "wf_network g \<Longrightarrow> n \<in> set (function_nodes g) \<Longrightarrow>
     distinct (node_outputs g n) \<and>
     (\<forall>out \<in> set (node_outputs g n).
        out \<in> set (sockets g) \<and> \<not> is_input g out \<and> socket_node g out = n) \<and>
     (\<forall>p \<in> set (node_params g n). \<forall>i \<in> set (param_inputs p). i \<in> set (node_inputs g n))"
  unfolding wf_network_def wf_params_def by blast

lemma wf_output_bound:
  "wf_network g \<Longrightarrow> s \<in> set (sockets g) \<Longrightarrow> \<not> is_input g s \<Longrightarrow>
     \<not> is_dummy g (socket_node g s) \<Longrightarrow> s \<in> set (node_outputs g (socket_node g s))"
  unfolding wf_network_def wf_outputs_def by blast

lemma wf_socket_node:
  "wf_network g \<Longrightarrow> s \<in> set (sockets g) \<Longrightarrow> socket_node g s \<in> set (nodes g)"
  unfolding wf_network_def wf_nodes_def by blast

lemma wf_dummy_nodes: "wf_network g \<Longrightarrow> n \<in> set (dummy_nodes g) \<Longrightarrow> is_dummy g n"
  unfolding wf_network_def wf_nodes_def by blast

lemma wf_node_kind:
  "wf_network g \<Longrightarrow> n \<in> set (nodes g) \<Longrightarrow> \<not> is_dummy g n \<Longrightarrow> n \<in> set (function_nodes g)"
  using wf_dummy_nodes[of g n] by (auto simp: nodes_def)

lemma filter_split_insert:
  "N \<notin> E \<Longrightarrow>
   length (filter (\<lambda>t. f t \<notin> E) ts) =
   length (filter (\<lambda>t. f t \<notin> insert N E) ts) + length (filter (\<lambda>t. f t = N) ts)"
  by (induction ts) auto

lemma inputs_targets_count:
  assumes wf: "wf_network g" and n: "N \<in> set (nodes g)"
    and s: "out \<in> set (sockets g)" "\<not> is_input g out"
  shows "length (filter (\<lambda>i. origin g i = out) (node_inputs g N)) =
         length (filter (\<lambda>t. socket_node g t = N) (targets g out))"
proof -
  have d1: "distinct (filter (\<lambda>i. origin g i = out) (node_inputs g N))"
    using wf_node_inputs[OF wf n] by simp
  have d2: "distinct (filter (\<lambda>t. socket_node g t = N) (targets g out))"
    using wf_targets[OF wf s] by simp
  have "set (filter (\<lambda>i. origin g i = out) (node_inputs g N)) =
        set (filter (\<lambda>t. socket_node g t = N) (targets g out))"
  proof (intro equalityI subsetI)
    fix i assume "i \<in> set (filter (\<lambda>i. origin g i = out) (node_inputs g N))"
    then have i: "i \<in> set (node_inputs g N)" "origin g i = out" by auto
    from wf_node_inputs[OF wf n] i(1)
    have ii: "i \<in> set (sockets g)" "is_input g i" "socket_node g i = N" by auto
    from wf_input_socket[OF wf ii(1,2)] i(2) have "i \<in> set (targets g out)" by simp
    with ii(3) show "i \<in> set (filter (\<lambda>t. socket_node g t = N) (targets g out))" by simp
  next
    fix t assume "t \<in> set (filter (\<lambda>t. socket_node g t = N) (targets g out))"
    then have t: "t \<in> set (targets g out)" "socket_node g t = N" by auto
    from wf_targets[OF wf s] t(1)
    have tt: "t \<in> set (sockets g)" "is_input g t" "origin g t = out" by auto
    from wf_input_socket[OF wf tt(1,2)] t(2) have "t \<in> set (node_inputs g N)" by simp
    with tt(3) show "t \<in> set (filter (\<lambda>i. origin g i = out) (node_inputs g N))" by simp
  qed
  then have "card (set (filter (\<lambda>i. origin g i = out) (node_inputs g N))) =
             card (set (filter (\<lambda>t. socket_node g t = N) (targets g out)))" by simp
  moreover have "card (set (filter (\<lambda>i. origin g i = out) (node_inputs g N))) =
             length (filter (\<lambda>i. origin g i = out) (node_inputs g N))"
    by (rule distinct_card[OF d1])
  moreover have "card (set (filter (\<lambda>t. socket_node g t = N) (targets g out))) =
             length (filter (\<lambda>t. socket_node g t = N) (targets g out))"
    by (rule distinct_card[OF d2])
  ultimately show ?thesis by linarith
qed

lemma remaining_insert:
  assumes wf: "wf_network g" and n: "N \<in> set (nodes g)" "N \<notin> E"
    and s: "out \<in> set (sockets g)" "\<not> is_input g out"
  shows "remaining g E out =
         remaining g (insert N E) out
           + int (length (filter (\<lambda>i. origin g i = out) (node_inputs g N)))"
proof -
  have a: "length (filter (\<lambda>i. origin g i = out) (node_inputs g N)) =
         length (filter (\<lambda>t. socket_node g t = N) (targets g out))"
    by (rule inputs_targets_count[OF wf n(1) s])
  have b: "length (filter (\<lambda>t. socket_node g t \<notin> E) (targets g out)) =
     length (filter (\<lambda>t. socket_node g t \<notin> insert N E) (targets g out))
       + length (filter (\<lambda>t. socket_node g t = N) (targets g out))"
    by (rule filter_split_insert[OF n(2)])
  show ?thesis unfolding remaining_def using a b by linarith
qed

subsection \<open>The slots after evaluate_function\<close>

lemma moved_or_same_None: "moved_or_same g ins None v' s \<Longrightarrow> v' = None"
  by (auto simp: moved_or_same_def)

lemma moved_or_same_caller: "is_from_caller v \<Longrightarrow> moved_or_same g ins v v' s \<Longrightarrow> v' = v"
  by (cases v rule: is_from_caller.cases) (auto simp: moved_or_same_def)

lemma finished_None: "finished None c v' \<Longrightarrow> c = 0 \<and> v' = None"
  by (auto simp: finished_def split: if_splits)

lemma finished_caller: "is_from_caller v \<Longrightarrow> finished v c v' \<Longrightarrow> v' = v"
  by (cases v rule: is_from_caller.cases) (auto simp: finished_def split: if_splits)

lemma finished_zero: "finished v 0 v' \<Longrightarrow> v' = v"
  by (simp add: finished_def)

lemma finished_owned:
  "is_owned v k \<Longrightarrow> finished v c v' \<Longrightarrow>
     (c = 0 \<or> int c \<le> k) \<and>
     (if k = int c \<and> c \<noteq> 0 then v' = None else is_owned v' (k - int c))"
  by (cases "(v, k)" rule: is_owned.cases) (auto simp: finished_def split: if_splits)

lemma is_owned_not_None: "is_owned v k \<Longrightarrow> v \<noteq> None"
  by (cases "(v, k)" rule: is_owned.cases) auto

lemma evaluate_function_table:
  assumes ev: "evaluate_function g N st = (evs, Inr st')"
    and d: "distinct (node_outputs g N)"
    and o: "\<forall>p \<in> set (node_params g N). \<forall>i \<in> set (param_inputs p).
              i \<in> set (node_inputs g N) \<and> origin g i \<notin> set (node_outputs g N)"
  shows "\<exists>v1. (if s \<in> set (node_outputs g N) then is_owned v1 (int (length (targets g s)))
               else moved_or_same g (node_inputs g N) (m_value_per_output_id st s) v1 s) \<and>
              finished v1 (length (filter (\<lambda>i. origin g i = s) (node_inputs g N)))
                (m_value_per_output_id st' s)"
proof -
  from ev obtain st1 bound st2 evs' where
    b: "bind_params g st (node_params g N) = Inr (st1, bound)" and
    c: "function_call g N bound st1 = Inr st2" and
    f: "finish_inputs g st2 (node_inputs g N) = (evs', Inr st')"
    by (auto simp: evaluate_function_def split: sum.splits prod.splits)
  have t2: "m_value_per_output_id st2 = m_value_per_output_id st1"
    by (rule function_call_table[OF c])
  have bt: "(s \<notin> set (concat (map param_outputs (node_params g N))) \<longrightarrow>
           moved_or_same g (concat (map param_inputs (node_params g N)))
             (m_value_per_output_id st s) (m_value_per_output_id st1 s) s) \<and>
         (s \<in> set (concat (map param_outputs (node_params g N))) \<longrightarrow>
           is_owned (m_value_per_output_id st1 s) (int (length (targets g s))))"
    by (rule bind_params_table[OF b, where Outs = "set (node_outputs g N)"])
       (use d o in \<open>auto simp: node_outputs_def\<close>)
  have sub: "set (concat (map param_inputs (node_params g N))) \<subseteq> set (node_inputs g N)"
    using o by auto
  have fin: "finished (m_value_per_output_id st1 s)
                (length (filter (\<lambda>i. origin g i = s) (node_inputs g N)))
                (m_value_per_output_id st' s)"
    using finish_inputs_table[OF f, of s] t2 by simp
  show ?thesis
  proof (cases "s \<in> set (node_outputs g N)")
    case True
    with bt fin show ?thesis by (auto simp: node_outputs_def)
  next
    case False
    with bt have "moved_or_same g (concat (map param_inputs (node_params g N)))
             (m_value_per_output_id st s) (m_value_per_output_id st1 s) s"
      by (simp add: node_outputs_def)
    then have "moved_or_same g (node_inputs g N)
             (m_value_per_output_id st s) (m_value_per_output_id st1 s) s"
      by (rule moved_or_same_mono[OF _ sub])
    with False fin show ?thesis by auto
  qed
qed

lemma ranked_origin_not_own:
  assumes "wf_network g" "ranked g r" "N \<in> set (function_nodes g)" "i \<in> set (node_inputs g N)"
  shows "socket_node g (origin g i) \<noteq> N"
  using assms(2-4) unfolding ranked_def by (metis less_irrefl)

lemma count_pos_iff:
  "(length (filter (\<lambda>i. origin g i = out) ins) \<noteq> 0) = (out \<in> origin g ` set ins)"
  by (auto simp: filter_empty_conv)

lemma remaining_le: "remaining g E out \<le> int (length (targets g out))"
  by (simp add: remaining_def)


lemma remaining_all:
  "\<forall>t \<in> set (targets g out). socket_node g t \<notin> E \<Longrightarrow>
   remaining g E out = int (length (targets g out))"
  by (simp add: remaining_def)

lemma evaluate_function_slot:
  assumes wf: "wf_network g" and rk: "ranked g r"
    and io: "\<forall>s \<in> set m_inputs. is_dummy g (socket_node g s)"
    and old: "slot_ok g m_inputs tab0 E (m_value_per_output_id st) out"
    and cl: "closed g m_inputs E"
    and N: "N \<in> set (function_nodes g)" "N \<notin> E"
    and ev: "evaluate_function g N st = (evs, Inr st')"
    and out: "out \<in> set (sockets g)" "\<not> is_input g out"
  shows "slot_ok g m_inputs tab0 (insert N E) (m_value_per_output_id st') out"
proof -
  let ?c = "length (filter (\<lambda>i. origin g i = out) (node_inputs g N))"
  let ?tab = "m_value_per_output_id st" and ?tab' = "m_value_per_output_id st'"
  have Nn: "N \<in> set (nodes g)" using N(1) by (simp add: nodes_def)
  have Nnd: "\<not> is_dummy g N" by (rule wf_function_not_dummy[OF wf N(1)])
  note wo = wf_node_outputs[OF wf N(1)]
  have d: "distinct (node_outputs g N)" using wo by simp
  have o: "\<forall>p \<in> set (node_params g N). \<forall>i \<in> set (param_inputs p).
              i \<in> set (node_inputs g N) \<and> origin g i \<notin> set (node_outputs g N)"
  proof (intro ballI conjI)
    fix p i assume p: "p \<in> set (node_params g N)" and i: "i \<in> set (param_inputs p)"
    show ii: "i \<in> set (node_inputs g N)" using wo p i by blast
    show "origin g i \<notin> set (node_outputs g N)"
      using wo ranked_origin_not_own[OF wf rk N(1) ii] by blast
  qed
  from evaluate_function_table[OF ev d o, of out] obtain v1 where
    A: "if out \<in> set (node_outputs g N) then is_owned v1 (int (length (targets g out)))
        else moved_or_same g (node_inputs g N) (?tab out) v1 out" and
    F: "finished v1 ?c (?tab' out)" by blast
  have rem: "remaining g E out = remaining g (insert N E) out + int ?c"
    by (rule remaining_insert[OF wf Nn N(2) out])
  have outs_node: "out \<in> set (node_outputs g N) \<Longrightarrow> socket_node g out = N"
    using wo by blast
  show ?thesis
  proof (cases "out \<in> set m_inputs")
    case True
    then have dm: "is_dummy g (socket_node g out)" using io by blast
    then have nout: "out \<notin> set (node_outputs g N)" using outs_node Nnd by auto
    from old True have t: "?tab out = tab0 out" "is_from_caller (tab0 out)"
      by (auto simp: slot_ok_def)
    from A nout t have "v1 = ?tab out" using moved_or_same_caller by fastforce
    with F t have "?tab' out = tab0 out" using finished_caller by fastforce
    with True t show ?thesis by (simp add: slot_ok_def)
  next
    case notin: False
    show ?thesis
    proof (cases "is_dummy g (socket_node g out)")
      case True
      then have nout: "out \<notin> set (node_outputs g N)" using outs_node Nnd by auto
      from old notin True have "?tab out = None" by (simp add: slot_ok_def)
      with A nout have "v1 = None" using moved_or_same_None by fastforce
      with F have "?tab' out = None" using finished_None by blast
      with notin True show ?thesis by (simp add: slot_ok_def)
    next
      case nd: False
      show ?thesis
      proof (cases "socket_node g out = N")
        case True
        have "out \<in> set (node_outputs g N)" using wf_output_bound[OF wf out nd] True by simp
        with A have own: "is_owned v1 (int (length (targets g out)))" by simp
        have "out \<notin> origin g ` set (node_inputs g N)"
          using ranked_origin_not_own[OF wf rk N(1)] True by auto
        then have "?c = 0" using count_pos_iff[of g out "node_inputs g N"] by blast
        with F have v: "?tab' out = v1" using finished_zero by metis
        have "\<forall>t \<in> set (targets g out). socket_node g t \<notin> insert N E"
        proof
          fix t assume t: "t \<in> set (targets g out)"
          from wf_targets[OF wf out] t
          have tt: "t \<in> set (sockets g)" "is_input g t" "origin g t = out" by auto
          from wf_input_socket[OF wf tt(1,2)]
          have ti: "t \<in> set (node_inputs g (socket_node g t))" by simp
          show "socket_node g t \<notin> insert N E"
          proof
            assume "socket_node g t \<in> insert N E"
            then consider "socket_node g t = N" | "socket_node g t \<in> E" by auto
            then show False
            proof cases
              case 1
              with ti ranked_origin_not_own[OF wf rk N(1), of t] tt(3) True show False by simp
            next
              case 2
              with cl ti have "origin g t \<in> set m_inputs \<or> socket_node g (origin g t) \<in> E"
                unfolding closed_def by blast
              with tt(3) notin True N(2) show False by simp
            qed
          qed
        qed
        then have "remaining g (insert N E) out = int (length (targets g out))"
          by (rule remaining_all)
        with own v notin nd True show ?thesis by (auto simp: slot_ok_def)
      next
        case other: False
        then have nout: "out \<notin> set (node_outputs g N)" using outs_node by auto
        with A have ms: "moved_or_same g (node_inputs g N) (?tab out) v1 out" by simp
        show ?thesis
        proof (cases "socket_node g out \<in> E")
          case False
          with old notin have "?tab out = None" by (simp add: slot_ok_def)
          with ms have "v1 = None" using moved_or_same_None by fastforce
          with F have "?tab' out = None" using finished_None by blast
          with notin False other show ?thesis by (simp add: slot_ok_def)
        next
          case inE: True
          from ms have "v1 = ?tab out \<or> (v1 = None \<and> ?c \<noteq> 0)"
            unfolding moved_or_same_def using count_pos_iff[of g out "node_inputs g N"] by blast
          moreover have "\<not> (v1 = None \<and> ?c \<noteq> 0)" using F finished_None by blast
          ultimately have v1: "v1 = ?tab out" by blast
          show ?thesis
          proof (cases "?tab out")
            case None
            with v1 F have c0: "?c = 0" and t': "?tab' out = None"
              using finished_None by fastforce+
            from old notin nd inE None
            have "remaining g E out = 0 \<and> targets g out \<noteq> []"
              by (auto simp: slot_ok_def split: if_splits)
            with rem c0 t' notin nd inE show ?thesis by (simp add: slot_ok_def)
          next
            case (Some x)
            with old notin nd inE
            have own: "is_owned (?tab out) (remaining g E out)"
              and nz: "\<not> (remaining g E out = 0 \<and> targets g out \<noteq> [])"
              by (auto simp: slot_ok_def split: if_splits)
            from finished_owned[OF own] v1 F
            have le: "?c = 0 \<or> int ?c \<le> remaining g E out"
              and res: "if remaining g E out = int ?c \<and> ?c \<noteq> 0 then ?tab' out = None
                        else is_owned (?tab' out) (remaining g E out - int ?c)"
              by auto
            show ?thesis
            proof (cases "remaining g E out = int ?c \<and> ?c \<noteq> 0")
              case True
              with res have t': "?tab' out = None" by simp
              from True rem have r0: "remaining g (insert N E) out = 0" by simp
              from True remaining_le[of g E out] have "targets g out \<noteq> []" by auto
              with r0 t' notin nd inE show ?thesis by (simp add: slot_ok_def)
            next
              case False
              have "is_owned (?tab' out) (remaining g E out - int ?c)"
                using res by (simp only: False if_False)
              moreover have "remaining g E out - int ?c = remaining g (insert N E) out"
                using rem by linarith
              ultimately have o': "is_owned (?tab' out) (remaining g (insert N E) out)"
                by (simp only:)
              have "\<not> (remaining g (insert N E) out = 0 \<and> targets g out \<noteq> [])"
                using False nz rem by auto
              with o' notin nd inE show ?thesis by (auto simp: slot_ok_def)
            qed
          qed
        qed
      qed
    qed
  qed
qed

lemma calls_append: "calls (xs @ ys) = calls xs @ calls ys"
  by (induction xs rule: calls.induct) auto

lemma calls_map_finish: "calls (map EvFinish xs) = []"
  by (induction xs) auto

lemma evaluate_function_calls:
  "evaluate_function g N st = (evs, res) \<Longrightarrow> calls evs = [] \<or> calls evs = [N]"
  by (auto simp: evaluate_function_def calls_map_finish
           split: sum.splits prod.splits dest!: finish_inputs_events)

lemma evaluate_function_calls_ok:
  "evaluate_function g N st = (evs, Inr st') \<Longrightarrow> calls evs = [N]"
  by (auto simp: evaluate_function_def calls_map_finish
           split: sum.splits prod.splits dest!: finish_inputs_events)


lemma evaluate_function_slots:
  assumes "wf_network g" "ranked g r"
    and "\<forall>s \<in> set m_inputs. is_dummy g (socket_node g s)"
    and "slots_ok g m_inputs tab0 E st" "closed g m_inputs E"
    and "N \<in> set (function_nodes g)" "N \<notin> E"
    and "evaluate_function g N st = (evs, Inr st')"
  shows "slots_ok g m_inputs tab0 (insert N E) st'"
  unfolding slots_ok_def
proof (intro ballI impI)
  fix out assume out: "out \<in> set (sockets g)" "\<not> is_input g out"
  from assms(4) out have "slot_ok g m_inputs tab0 E (m_value_per_output_id st) out"
    by (simp add: slots_ok_def)
  from evaluate_function_slot[OF assms(1-3) this assms(5-8) out]
  show "slot_ok g m_inputs tab0 (insert N E) (m_value_per_output_id st') out" .
qed

lemma closed_not_dummy: "wf_network g \<Longrightarrow> closed g m_inputs E \<Longrightarrow> n \<in> E \<Longrightarrow> \<not> is_dummy g n"
  unfolding closed_def using wf_function_not_dummy by blast

lemma computed_iff:
  assumes wf: "wf_network g" and sl: "slots_ok g m_inputs tab0 E st"
    and cl: "closed g m_inputs E"
    and i: "i \<in> set (sockets g)" "is_input g i" "socket_node g i \<notin> E"
  shows "input_is_computed g st i \<longleftrightarrow>
           (origin g i \<in> set m_inputs \<or> socket_node g (origin g i) \<in> E)"
proof -
  let ?o = "origin g i"
  from wf_input_socket[OF wf i(1,2)]
  have o: "?o \<in> set (sockets g)" "\<not> is_input g ?o" "i \<in> set (targets g ?o)" by auto
  from sl o have ok: "slot_ok g m_inputs tab0 E (m_value_per_output_id st) ?o"
    by (simp add: slots_ok_def)
  show ?thesis
  proof (cases "?o \<in> set m_inputs")
    case True
    with ok have "is_from_caller (m_value_per_output_id st ?o)" by (simp add: slot_ok_def)
    then have "m_value_per_output_id st ?o \<noteq> None"
      by (cases "m_value_per_output_id st ?o") auto
    with True show ?thesis by (simp add: input_is_computed_def)
  next
    case notin: False
    show ?thesis
    proof (cases "socket_node g ?o \<in> E")
      case False
      with ok notin have "m_value_per_output_id st ?o = None" by (simp add: slot_ok_def)
      with notin False show ?thesis by (simp add: input_is_computed_def)
    next
      case True
      then have nd: "\<not> is_dummy g (socket_node g ?o)" by (rule closed_not_dummy[OF wf cl])
      have "i \<in> set (filter (\<lambda>t. socket_node g t \<notin> E) (targets g ?o))"
        using o(3) i(3) by simp
      then have "length (filter (\<lambda>t. socket_node g t \<notin> E) (targets g ?o)) \<noteq> 0"
        by (metis length_0_conv empty_iff empty_set)
      then have "remaining g E ?o \<noteq> 0" by (simp add: remaining_def)
      with ok notin nd True have "is_owned (m_value_per_output_id st ?o) (remaining g E ?o)"
        by (simp add: slot_ok_def)
      then have "m_value_per_output_id st ?o \<noteq> None" by (rule is_owned_not_None)
      with True show ?thesis by (simp add: input_is_computed_def)
    qed
  qed
qed

lemma closed_insert:
  assumes wf: "wf_network g" and sl: "slots_ok g m_inputs tab0 E st"
    and cl: "closed g m_inputs E"
    and N: "N \<in> set (function_nodes g)" "N \<notin> E"
    and comp: "\<forall>i \<in> set (node_inputs g N). input_is_computed g st i"
  shows "closed g m_inputs (insert N E)"
proof -
  have "origin g i \<in> set m_inputs \<or> socket_node g (origin g i) \<in> E"
    if i: "i \<in> set (node_inputs g N)" for i
  proof -
    from wf_function_inputs[OF wf N(1) i]
    have ii: "i \<in> set (sockets g)" "is_input g i" "socket_node g i = N" by auto
    from computed_iff[OF wf sl cl ii(1,2)] ii(3) N(2) comp i show ?thesis by auto
  qed
  with cl N(1) show ?thesis unfolding closed_def by auto
qed

subsection \<open>The scheduler loop keeps its invariant\<close>

lemma stack_ok_sockets: "stack_ok g r E stk \<Longrightarrow> s \<in> set stk \<Longrightarrow> s \<in> set (sockets g)"
  by (induction stk) auto

lemma stack_ok_output: "stack_ok g r E stk \<Longrightarrow> s \<in> set stk \<Longrightarrow> \<not> is_input g s \<Longrightarrow> socket_node g s \<notin> E"
  by (induction stk) auto

lemma stack_ok_input:
  assumes "wf_network g" "closed g m_inputs E"
  shows "stack_ok g r E stk \<Longrightarrow> s \<in> set stk \<Longrightarrow> is_input g s \<Longrightarrow> socket_node g s \<notin> E"
proof (induction stk)
  case Nil
  then show ?case by simp
next
  case (Cons x stk)
  show ?case
  proof (cases "s = x")
    case True
    with Cons.prems have dj: "is_dummy g (socket_node g s) \<or>
            (\<exists>out \<in> set stk. \<not> is_input g out \<and> socket_node g out = socket_node g s)"
      and ok: "stack_ok g r E stk" by auto
    from dj show ?thesis
    proof
      assume "is_dummy g (socket_node g s)"
      with closed_not_dummy[OF assms] show ?thesis by blast
    next
      assume "\<exists>out \<in> set stk. \<not> is_input g out \<and> socket_node g out = socket_node g s"
      then obtain out where "out \<in> set stk" "\<not> is_input g out" "socket_node g out = socket_node g s"
        by blast
      with stack_ok_output[OF ok] show ?thesis by metis
    qed
  next
    case False
    with Cons show ?thesis by auto
  qed
qed

lemma stack_ok_mono:
  "stack_ok g r E stk \<Longrightarrow> (\<forall>s \<in> set stk. \<not> is_input g s \<longrightarrow> socket_node g s \<notin> E') \<Longrightarrow>
   stack_ok g r E' stk"
  by (induction stk) auto

lemma stack_ok_push_inputs:
  assumes "stack_ok g r E (out # rest)" "\<not> is_input g out"
    and "\<forall>m \<in> set ms. m \<in> set (sockets g) \<and> is_input g m \<and> socket_node g m = socket_node g out \<and>
           level g r m < level g r out"
  shows "stack_ok g r E (ms @ out # rest)"
  using assms(3)
proof (induction ms)
  case Nil
  then show ?case using assms(1) by simp
next
  case (Cons m ms)
  then have ih: "stack_ok g r E (ms @ out # rest)" by simp
  from Cons.prems have m: "m \<in> set (sockets g)" "is_input g m" "socket_node g m = socket_node g out"
    "level g r m < level g r out" by auto
  have lv: "\<forall>o' \<in> set (ms @ out # rest). \<not> is_input g o' \<longrightarrow> level g r m < level g r o'"
  proof (intro ballI impI)
    fix o' assume o': "o' \<in> set (ms @ out # rest)" "\<not> is_input g o'"
    with Cons.prems have "o' = out \<or> o' \<in> set rest" by auto
    then show "level g r m < level g r o'"
    proof
      assume "o' = out" with m(4) show ?thesis by simp
    next
      assume "o' \<in> set rest"
      with assms(1) o'(2) have "level g r out < level g r o'" by simp
      with m(4) show ?thesis by simp
    qed
  qed
  have ex: "\<exists>o' \<in> set (ms @ out # rest). \<not> is_input g o' \<and> socket_node g o' = socket_node g m"
    using assms(2) m(3) by auto
  show ?case using ih m(1,2) lv ex by simp
qed

lemma level_input_of_node:
  assumes "wf_network g" "ranked g r" "N \<in> set (function_nodes g)" "m \<in> set (node_inputs g N)"
    and "\<not> is_input g out" "socket_node g out = N"
  shows "level g r m < level g r out"
proof -
  from wf_function_inputs[OF assms(1,3,4)] have "is_input g m" by simp
  moreover from assms(2-4) have "r (socket_node g (origin g m)) < r N" unfolding ranked_def by blast
  ultimately show ?thesis using assms(5,6) by (simp add: level_def)
qed

lemma eval_step_inv:
  assumes wf: "wf_network g" and rk: "ranked g r" and io: "wf_io g m_inputs m_outputs"
    and inv: "eval_inv g r m_inputs m_outputs tab0 s" and run: "eval_running s"
  shows "eval_inv g r m_inputs m_outputs tab0 (eval_step g d s)"
proof -
  from run obtain tr top rest st where s: "s = (tr, Inr (top # rest, st))"
    by (cases s; cases "snd s") (auto simp: eval_running_def neq_Nil_conv split: sum.splits)
  let ?E = "set (calls tr)"
  from inv s have dist: "distinct (calls tr)"
    and sl: "slots_ok g m_inputs tab0 ?E st"
    and cl: "closed g m_inputs ?E"
    and sk: "stack_ok g r ?E (top # rest)"
    and rq: "\<forall>q \<in> set m_outputs. q \<in> set (top # rest) \<or> origin g q \<in> set m_inputs \<or>
             socket_node g (origin g q) \<in> ?E"
    by (auto simp: eval_inv_def)
  from sk have skr: "stack_ok g r ?E rest" and top_s: "top \<in> set (sockets g)" by auto
  have iod: "\<forall>s \<in> set m_inputs. is_dummy g (socket_node g s)"
    using io by (simp add: wf_io_def)
  show ?thesis
  proof (cases "is_input g top")
    case inp: True
    have nE: "socket_node g top \<notin> ?E"
      by (rule stack_ok_input[OF wf cl sk _ inp]) simp
    note ci = computed_iff[OF wf sl cl top_s inp nE]
    show ?thesis
    proof (cases "input_is_computed g st top")
      case True
      then have st: "eval_step g d s = (tr, Inr (rest, st))"
        using s inp by (simp add: eval_step_def)
      have "\<forall>q \<in> set m_outputs. q \<in> set rest \<or> origin g q \<in> set m_inputs \<or>
             socket_node g (origin g q) \<in> ?E"
        using rq ci True by auto
      with dist sl cl skr show ?thesis unfolding st by (simp add: eval_inv_def del: stack_ok.simps)
    next
      case False
      then have st: "eval_step g d s = (tr, Inr (origin g top # top # rest, st))"
        using s inp by (simp add: eval_step_def)
      let ?o = "origin g top"
      from wf_input_socket[OF wf top_s inp]
      have o: "?o \<in> set (sockets g)" "\<not> is_input g ?o" by auto
      have oE: "socket_node g ?o \<notin> ?E" using ci False by simp
      have lt: "level g r ?o < level g r top" using inp o(2) by (simp add: level_def)
      have "\<forall>out \<in> set (top # rest). \<not> is_input g out \<longrightarrow> level g r ?o < level g r out"
      proof (intro ballI impI)
        fix out assume a: "out \<in> set (top # rest)" "\<not> is_input g out"
        with inp have "out \<in> set rest" by auto
        with sk a(2) have "level g r top < level g r out" by simp
        with lt show "level g r ?o < level g r out" by simp
      qed
      with sk o oE have "stack_ok g r ?E (?o # top # rest)" by simp
      moreover have "\<forall>q \<in> set m_outputs. q \<in> set (?o # top # rest) \<or> origin g q \<in> set m_inputs \<or>
             socket_node g (origin g q) \<in> ?E"
        using rq by auto
      ultimately show ?thesis using dist sl cl unfolding st by (simp add: eval_inv_def del: stack_ok.simps)
    qed
  next
    case outp: False
    let ?N = "socket_node g top"
    show ?thesis
    proof (cases "is_dummy g ?N")
      case True
      then have "eval_step g d s = (tr, Inl NotAFunctionNode)"
        using s outp by (simp add: eval_step_def)
      with dist show ?thesis by (simp add: eval_inv_def del: stack_ok.simps)
    next
      case nd: False
      have Nf: "?N \<in> set (function_nodes g)"
        by (rule wf_node_kind[OF wf wf_socket_node[OF wf top_s] nd])
      have NE: "?N \<notin> ?E" using sk outp by simp
      let ?missing = "filter (\<lambda>i. \<not> input_is_computed g st i) (node_inputs g ?N)"
      let ?sorted = "sort_key (\<lambda>i. d (socket_node g (origin g i))) ?missing"
      show ?thesis
      proof (cases "?missing = []")
        case True
        then have comp: "\<forall>i \<in> set (node_inputs g ?N). input_is_computed g st i"
          by (simp add: filter_empty_conv)
        obtain evs res where ev: "evaluate_function g ?N st = (evs, res)"
          by (cases "evaluate_function g ?N st")
        show ?thesis
        proof (cases res)
          case (Inl e)
          then have st: "eval_step g d s = (tr @ evs, Inl e)"
            using s outp nd True ev by (simp add: eval_step_def)
          from evaluate_function_calls[OF ev] dist NE
          have "distinct (calls (tr @ evs))" by (auto simp: calls_append)
          then show ?thesis unfolding st by (simp add: eval_inv_def del: stack_ok.simps)
        next
          case (Inr st')
          then have st: "eval_step g d s = (tr @ evs, Inr (rest, st'))"
            using s outp nd True ev by (simp add: eval_step_def)
          from ev Inr have ev': "evaluate_function g ?N st = (evs, Inr st')" by simp
          have ce: "calls (tr @ evs) = calls tr @ [?N]"
            using evaluate_function_calls_ok[OF ev'] by (simp add: calls_append)
          then have E': "set (calls (tr @ evs)) = insert ?N ?E" by simp
          have d': "distinct (calls (tr @ evs))" using ce dist NE by simp
          have sl': "slots_ok g m_inputs tab0 (insert ?N ?E) st'"
            by (rule evaluate_function_slots[OF wf rk iod sl cl Nf NE ev'])
          have cl': "closed g m_inputs (insert ?N ?E)"
            by (rule closed_insert[OF wf sl cl Nf NE comp])
          have "\<forall>x \<in> set rest. \<not> is_input g x \<longrightarrow> socket_node g x \<notin> insert ?N ?E"
          proof (intro ballI impI)
            fix x assume x: "x \<in> set rest" "\<not> is_input g x"
            from stack_ok_output[OF skr x] have "socket_node g x \<notin> ?E" .
            moreover from sk x have "level g r top < level g r x" by simp
            then have "socket_node g x \<noteq> ?N" using outp x(2) by (auto simp: level_def)
            ultimately show "socket_node g x \<notin> insert ?N ?E" by simp
          qed
          with skr have sk': "stack_ok g r (insert ?N ?E) rest" by (rule stack_ok_mono)
          have "\<forall>q \<in> set m_outputs. q \<in> set rest \<or> origin g q \<in> set m_inputs \<or>
             socket_node g (origin g q) \<in> insert ?N ?E"
          proof
            fix q assume q: "q \<in> set m_outputs"
            with io have "is_input g q" by (simp add: wf_io_def)
            with outp have "q \<noteq> top" by auto
            with rq q show "q \<in> set rest \<or> origin g q \<in> set m_inputs \<or>
             socket_node g (origin g q) \<in> insert ?N ?E" by auto
          qed
          with d' sl' cl' sk' show ?thesis unfolding st by (simp add: eval_inv_def E' del: stack_ok.simps)
        qed
      next
        case False
        then have st: "eval_step g d s =
            (tr, Inr ((rev ?sorted @ rev ?missing) @ top # rest, st))"
          using s outp nd by (simp add: eval_step_def Let_def)
        have "\<forall>m \<in> set (rev ?sorted @ rev ?missing).
                m \<in> set (sockets g) \<and> is_input g m \<and> socket_node g m = socket_node g top \<and>
                level g r m < level g r top"
        proof
          fix m assume "m \<in> set (rev ?sorted @ rev ?missing)"
          then have m: "m \<in> set (node_inputs g ?N)" by auto
          from wf_function_inputs[OF wf Nf m] level_input_of_node[OF wf rk Nf m outp]
          show "m \<in> set (sockets g) \<and> is_input g m \<and> socket_node g m = socket_node g top \<and>
                level g r m < level g r top" by simp
        qed
        with sk outp have "stack_ok g r ?E ((rev ?sorted @ rev ?missing) @ top # rest)"
          by (rule stack_ok_push_inputs)
        moreover have "\<forall>q \<in> set m_outputs.
             q \<in> set ((rev ?sorted @ rev ?missing) @ top # rest) \<or> origin g q \<in> set m_inputs \<or>
             socket_node g (origin g q) \<in> ?E"
          using rq by auto
        ultimately show ?thesis using dist sl cl unfolding st by (simp add: eval_inv_def del: stack_ok.simps)
      qed
    qed
  qed
qed

subsection \<open>The scheduler loop terminates\<close>

lemma eval_step_decreases:
  assumes wf: "wf_network g" and rk: "ranked g r" and io: "wf_io g m_inputs m_outputs"
    and inv: "eval_inv g r m_inputs m_outputs tab0 s" and run: "eval_running s"
  shows "(eval_step g d s, s) \<in> measures [eval_m1 g, eval_m2 g, eval_m3 g r]"
proof -
  from run obtain tr top rest st where s: "s = (tr, Inr (top # rest, st))"
    by (cases s; cases "snd s") (auto simp: eval_running_def neq_Nil_conv split: sum.splits)
  let ?E = "set (calls tr)"
  from inv s have dist: "distinct (calls tr)"
    and sl: "slots_ok g m_inputs tab0 ?E st"
    and cl: "closed g m_inputs ?E"
    and sk: "stack_ok g r ?E (top # rest)"
    by (auto simp: eval_inv_def)
  from sk have top_s: "top \<in> set (sockets g)" by auto
  show ?thesis
  proof (cases "is_input g top")
    case inp: True
    show ?thesis
    proof (cases "input_is_computed g st top")
      case True
      then have st: "eval_step g d s = (tr, Inr (rest, st))"
        using s inp by (simp add: eval_step_def)
      have td: "top_done g s" using s inp True by (simp add: top_done_def)
      show ?thesis
      proof (cases "top_done g (tr, Inr (rest, st))")
        case True
        then obtain x xs where "rest = x # xs" by (cases rest) (auto simp: top_done_def)
        with True td show ?thesis unfolding st unfolding s
          by (simp add: eval_m1_def eval_m2_def eval_m3_def)
      next
        case False
        with td show ?thesis unfolding st unfolding s
          by (simp add: eval_m1_def eval_m2_def)
      qed
    next
      case False
      then have st: "eval_step g d s = (tr, Inr (origin g top # top # rest, st))"
        using s inp by (simp add: eval_step_def)
      from wf_input_socket[OF wf top_s inp] have o: "\<not> is_input g (origin g top)" by simp
      have "level g r (origin g top) < level g r top" using inp o by (simp add: level_def)
      with False o show ?thesis unfolding st unfolding s
        by (simp add: eval_m1_def eval_m2_def eval_m3_def top_done_def)
    qed
  next
    case outp: False
    let ?N = "socket_node g top"
    show ?thesis
    proof (cases "is_dummy g ?N")
      case True
      then have "eval_step g d s = (tr, Inl NotAFunctionNode)"
        using s outp by (simp add: eval_step_def)
      then show ?thesis by (simp add: eval_m1_def s)
    next
      case nd: False
      have Nf: "?N \<in> set (function_nodes g)"
        by (rule wf_node_kind[OF wf wf_socket_node[OF wf top_s] nd])
      have NE: "?N \<notin> ?E" using sk outp by simp
      let ?missing = "filter (\<lambda>i. \<not> input_is_computed g st i) (node_inputs g ?N)"
      let ?sorted = "sort_key (\<lambda>i. d (socket_node g (origin g i))) ?missing"
      show ?thesis
      proof (cases "?missing = []")
        case True
        obtain evs res where ev: "evaluate_function g ?N st = (evs, res)"
          by (cases "evaluate_function g ?N st")
        show ?thesis
        proof (cases res)
          case (Inl e)
          then have "eval_step g d s = (tr @ evs, Inl e)"
            using s outp nd True ev by (simp add: eval_step_def)
          then show ?thesis by (simp add: eval_m1_def s)
        next
          case (Inr st')
          then have st: "eval_step g d s = (tr @ evs, Inr (rest, st'))"
            using s outp nd True ev by (simp add: eval_step_def)
          from ev Inr have ev': "evaluate_function g ?N st = (evs, Inr st')" by simp
          have E': "set (calls (tr @ evs)) = insert ?N ?E"
            using evaluate_function_calls_ok[OF ev'] by (simp add: calls_append)
          have "set (function_nodes g) - insert ?N ?E \<subset> set (function_nodes g) - ?E"
            using Nf NE by auto
          then have "card (set (function_nodes g) - insert ?N ?E)
                     < card (set (function_nodes g) - ?E)"
            by (intro psubset_card_mono) auto
          then show ?thesis unfolding st unfolding s by (simp add: eval_m1_def E')
        qed
      next
        case False
        then have st: "eval_step g d s =
            (tr, Inr (rev ?sorted @ rev ?missing @ top # rest, st))"
          using s outp nd by (simp add: eval_step_def Let_def)
        from False have sne: "?sorted \<noteq> []" by (metis set_sort set_empty)
        then obtain m ms where hd: "rev ?sorted = m # ms" by (cases "rev ?sorted") auto
        then have "m \<in> set ?sorted" by (metis list.set_intros(1) set_rev)
        then have mm: "m \<in> set ?missing" by simp
        then have m: "m \<in> set (node_inputs g ?N)" "\<not> input_is_computed g st m" by auto
        have lv: "level g r m < level g r top"
          by (rule level_input_of_node[OF wf rk Nf m(1) outp refl])
        have st2: "eval_step g d s = (tr, Inr (m # ms @ rev ?missing @ top # rest, st))"
          unfolding st hd by simp
        show ?thesis unfolding st2 unfolding s using lv m(2) outp
          by (simp add: eval_m1_def eval_m2_def eval_m3_def top_done_def)
      qed
    qed
  qed
qed

lemma eval_loop_terminates:
  assumes wf: "wf_network g" and rk: "ranked g r" and io: "wf_io g m_inputs m_outputs"
    and inv: "eval_inv g r m_inputs m_outputs tab0 s0"
  shows "\<exists>t. while_option eval_running (eval_step g d) s0 = Some t"
proof (rule wf_while_option_Some[where P = "eval_inv g r m_inputs m_outputs tab0"])
  show "wf {(t, s). (eval_inv g r m_inputs m_outputs tab0 s \<and> eval_running s) \<and>
                    t = eval_step g d s}"
  proof (rule wf_subset)
    show "wf (measures [eval_m1 g, eval_m2 g, eval_m3 g r])" by (rule wf_measures)
    show "{(t, s). (eval_inv g r m_inputs m_outputs tab0 s \<and> eval_running s) \<and>
                    t = eval_step g d s} \<subseteq> measures [eval_m1 g, eval_m2 g, eval_m3 g r]"
      using eval_step_decreases[OF wf rk io] by blast
  qed
next
  fix s assume "eval_inv g r m_inputs m_outputs tab0 s" "eval_running s"
  then show "eval_inv g r m_inputs m_outputs tab0 (eval_step g d s)"
    using eval_step_inv[OF wf rk io] by blast
next
  show "eval_inv g r m_inputs m_outputs tab0 s0" by (rule inv)
qed

lemma eval_loop_result:
  assumes wf: "wf_network g" and rk: "ranked g r" and io: "wf_io g m_inputs m_outputs"
    and inv: "eval_inv g r m_inputs m_outputs tab0 s0"
    and res: "while_option eval_running (eval_step g d) s0 = Some t"
  shows "eval_inv g r m_inputs m_outputs tab0 t \<and> \<not> eval_running t"
proof
  show "eval_inv g r m_inputs m_outputs tab0 t"
    by (rule while_option_rule[where P = "eval_inv g r m_inputs m_outputs tab0", OF _ res inv])
       (rule eval_step_inv[OF wf rk io])
  show "\<not> eval_running t" by (rule while_option_stop[OF res])
qed

lemma add_from_caller_table:
  "add_single_from_caller st s v = Inr st' \<Longrightarrow>
     m_value_per_output_id st s = None \<and>
     m_value_per_output_id st' = (m_value_per_output_id st)(s \<mapsto> SingleFromCallerValue v)"
  "add_vector_from_caller st s w = Inr st' \<Longrightarrow>
     m_value_per_output_id st s = None \<and>
     m_value_per_output_id st' = (m_value_per_output_id st)(s \<mapsto> VectorFromCallerValue w)"
  by (auto simp: add_single_from_caller_def add_vector_from_caller_def split: if_splits)

lemma copy_input_table:
  "copy_input g params k x st = Inr st1 \<Longrightarrow>
     m_value_per_output_id st x = None \<and> m_mask st1 = m_mask st \<and>
     (\<forall>s. s \<noteq> x \<longrightarrow> m_value_per_output_id st1 s = m_value_per_output_id st s) \<and>
     k < length params \<and>
     (case category g x of
        Single \<Rightarrow> (\<exists>v. params ! k = SingleBuffer v \<and>
                       m_value_per_output_id st1 x = Some (SingleFromCallerValue v))
      | Vector \<Rightarrow> (\<exists>w. params ! k = VectorArray w \<and>
                       m_value_per_output_id st1 x = Some (VectorFromCallerValue w)))"
  by (auto simp: copy_input_def readonly_single_input_def readonly_vector_input_def
                 add_single_from_caller_def add_vector_from_caller_def
           split: MFDataType.splits sum.splits if_splits buffer.splits)

lemma copy_input_from_caller:
  "copy_input g params k x st = Inr st1 \<Longrightarrow> is_from_caller (m_value_per_output_id st1 x)"
  by (drule copy_input_table) (auto split: MFDataType.splits)

lemma copy_inputs_from_table:
  "copy_inputs_from g params k ins st = Inr st' \<Longrightarrow>
     (s \<in> set ins \<longrightarrow> is_from_caller (m_value_per_output_id st' s)) \<and>
     (s \<notin> set ins \<longrightarrow> m_value_per_output_id st' s = m_value_per_output_id st s) \<and>
     (m_value_per_output_id st s \<noteq> None \<longrightarrow>
        m_value_per_output_id st' s = m_value_per_output_id st s)"
proof (induction ins arbitrary: st k)
  case Nil
  then show ?case by simp
next
  case (Cons x ins)
  from Cons.prems obtain st1 where
    a: "copy_input g params k x st = Inr st1"
    and b: "copy_inputs_from g params (Suc k) ins st1 = Inr st'"
    by (auto split: sum.splits)
  from copy_input_table[OF a] copy_input_from_caller[OF a]
  have t1: "m_value_per_output_id st x = None"
    "is_from_caller (m_value_per_output_id st1 x)"
    "\<forall>s. s \<noteq> x \<longrightarrow> m_value_per_output_id st1 s = m_value_per_output_id st s"
    by simp_all
  note ih = Cons.IH[OF b]
  show ?case
  proof (cases "s = x")
    case True
    from t1(2) have "m_value_per_output_id st1 x \<noteq> None"
      by (cases "m_value_per_output_id st1 x") auto
    with ih True t1 show ?thesis by auto
  next
    case False
    with ih t1 show ?thesis by auto
  qed
qed

lemma stack_ok_requested:
  "\<forall>q \<in> set qs. q \<in> set (sockets g) \<and> is_input g q \<and> is_dummy g (socket_node g q) \<Longrightarrow>
   stack_ok g r E qs"
  by (induction qs) auto

lemma eval_inv_initial:
  assumes io: "wf_io g m_inputs m_outputs"
    and c: "copy_inputs_to_storage g m_inputs params (new_storage msk n) = Inr st1"
  shows "eval_inv g r m_inputs m_outputs (m_value_per_output_id st1) ([], Inr (rev m_outputs, st1))"
proof -
  from c have c': "copy_inputs_from g params 0 m_inputs (new_storage msk n) = Inr st1"
    by (simp add: copy_inputs_to_storage_def)
  have sl: "slots_ok g m_inputs (m_value_per_output_id st1) {} st1"
    unfolding slots_ok_def slot_ok_def
    using copy_inputs_from_table[OF c'] by (auto simp: new_storage_def)
  have sk: "stack_ok g r {} (rev m_outputs)"
    by (rule stack_ok_requested) (use io in \<open>auto simp: wf_io_def\<close>)
  show ?thesis using sl sk by (simp add: eval_inv_def closed_def del: stack_ok.simps)
qed

subsection \<open>The depth loop\<close>

lemma Max_insert_max:
  fixes a :: int
  shows "finite S \<Longrightarrow> Max (insert (max a b) S) = Max (insert a (insert b S))"
  by (cases "S = {}") (simp_all add: max.assoc)

lemma check_inputs_fold:
  fixes d :: "nat \<Rightarrow> int" and g :: "'v MFNetwork"
  defines "F \<equiv> (\<lambda>socket (stk, all_inputs_computed, max_incoming_depth).
             if d (origin_node g socket) = - 1
             then (origin_node g socket # stk, False, max_incoming_depth)
             else (stk, all_inputs_computed, max max_incoming_depth (d (origin_node g socket))))"
  shows "fold F ins (stk0, a0, m0) =
   (rev (map (origin_node g) (filter (\<lambda>i. d (origin_node g i) = - 1) ins)) @ stk0,
    a0 \<and> (\<forall>i \<in> set ins. d (origin_node g i) \<noteq> - 1),
    Max (insert m0 (d ` origin_node g ` {i \<in> set ins. d (origin_node g i) \<noteq> - 1})))"
proof (induction ins arbitrary: stk0 a0 m0)
  case Nil
  then show ?case by simp
next
  case (Cons i ins)
  let ?S = "d ` origin_node g ` {i \<in> set ins. d (origin_node g i) \<noteq> - 1}"
  have fin: "finite ?S" by simp
  show ?case
  proof (cases "d (origin_node g i) = - 1")
    case True
    have s: "{j \<in> set (i # ins). d (origin_node g j) \<noteq> - 1} =
             {j \<in> set ins. d (origin_node g j) \<noteq> - 1}"
      using True by auto
    have "fold F (i # ins) (stk0, a0, m0) = fold F ins (origin_node g i # stk0, False, m0)"
      using True by (simp add: F_def)
    also note Cons.IH
    finally show ?thesis unfolding s using True by simp
  next
    case False
    have img: "d ` origin_node g ` {j \<in> set (i # ins). d (origin_node g j) \<noteq> - 1} =
               insert (d (origin_node g i)) ?S"
      using False by auto
    have p3: "Max (insert m0 (d ` origin_node g ` {j \<in> set (i # ins). d (origin_node g j) \<noteq> - 1}))
              = Max (insert (max m0 (d (origin_node g i))) ?S)"
      unfolding img by (rule Max_insert_max[OF fin, symmetric])
    have "fold F (i # ins) (stk0, a0, m0) = fold F ins (stk0, a0, max m0 (d (origin_node g i)))"
      using False by (simp add: F_def)
    also note Cons.IH
    finally show ?thesis unfolding p3 using False by simp
  qed
qed

lemma check_inputs_eq:
  "check_inputs g d ins stk0 =
   (rev (map (origin_node g) (filter (\<lambda>i. d (origin_node g i) = - 1) ins)) @ stk0,
    (\<forall>i \<in> set ins. d (origin_node g i) \<noteq> - 1),
    Max (insert 0 (d ` origin_node g ` {i \<in> set ins. d (origin_node g i) \<noteq> - 1})))"
  unfolding check_inputs_def Let_def origin_node_def[symmetric] by (simp add: check_inputs_fold)

lemma wf_origin_node:
  assumes "wf_network g" "n \<in> set (function_nodes g)" "i \<in> set (node_inputs g n)"
  shows "origin_node g i \<in> set (nodes g)"
  using wf_function_inputs[OF assms] wf_socket_node[OF assms(1)] by (simp add: origin_node_def)

lemma ranked_origin_node:
  "ranked g r \<Longrightarrow> n \<in> set (function_nodes g) \<Longrightarrow> i \<in> set (node_inputs g n) \<Longrightarrow>
   r (origin_node g i) < r n"
  unfolding ranked_def origin_node_def by blast

lemma depth_unassigned_function:
  assumes wf: "wf_network g" and inv: "depth_inv g (cur # rest, d)" and neg: "\<not> 0 \<le> d cur"
  shows "cur \<in> set (function_nodes g)" "d cur = - 1"
proof -
  from inv have c: "cur \<in> set (nodes g)" and lo: "- 1 \<le> d cur"
    and dm: "\<forall>n \<in> set (dummy_nodes g). d n = 0"
    by (auto simp: depth_inv_def)
  from lo neg show "d cur = - 1" by linarith
  from c dm neg show "cur \<in> set (function_nodes g)" by (auto simp: nodes_def)
qed

lemma depth_step_cases:
  assumes "s = (cur # rest, d)"
  shows "(0 \<le> d cur \<and> depth_step g s = (rest, d)) \<or>
         (\<not> 0 \<le> d cur \<and> (\<exists>i \<in> set (node_inputs g cur). d (origin_node g i) = - 1) \<and>
            depth_step g s =
              (rev (map (origin_node g)
                     (filter (\<lambda>i. d (origin_node g i) = - 1) (node_inputs g cur))) @ cur # rest, d)) \<or>
         (\<not> 0 \<le> d cur \<and> (\<forall>i \<in> set (node_inputs g cur). d (origin_node g i) \<noteq> - 1) \<and>
            depth_step g s =
              (rest, d(cur := Max (insert 0 (d ` origin_node g ` set (node_inputs g cur))) + 1)))"
proof (cases "0 \<le> d cur")
  case True
  then show ?thesis using assms by (simp add: depth_step_def)
next
  case neg: False
  show ?thesis
  proof (cases "\<forall>i \<in> set (node_inputs g cur). d (origin_node g i) \<noteq> - 1")
    case True
    then have "{i \<in> set (node_inputs g cur). d (origin_node g i) \<noteq> - 1} = set (node_inputs g cur)"
      by auto
    with True neg show ?thesis using assms
      by (simp add: depth_step_def check_inputs_eq)
  next
    case False
    with neg show ?thesis using assms
      by (auto simp: depth_step_def check_inputs_eq)
  qed
qed

lemma depth_step_inv:
  assumes wf: "wf_network g" and rk: "ranked g r"
    and inv: "depth_inv g s" and run: "fst s \<noteq> []"
  shows "depth_inv g (depth_step g s)"
proof -
  from run obtain cur rest d where s: "s = (cur # rest, d)"
    by (cases s; cases "fst s") auto
  from inv s have stk: "\<forall>n \<in> set (cur # rest). n \<in> set (nodes g)"
    and lo: "\<forall>n. - 1 \<le> d n"
    and dm: "\<forall>n \<in> set (dummy_nodes g). d n = 0"
    and fn: "\<forall>n \<in> set (function_nodes g). d n = - 1 \<or> depth_correct g d n"
    and un: "\<forall>n \<in> set (function_nodes g). d n = - 1 \<longrightarrow> n \<in> set (cur # rest)"
    by (auto simp: depth_inv_def)
  from depth_step_cases[OF s, of g] show ?thesis
  proof (elim disjE conjE)
    assume a: "0 \<le> d cur" "depth_step g s = (rest, d)"
    have "\<forall>n \<in> set (function_nodes g). d n = - 1 \<longrightarrow> n \<in> set rest"
      using un a(1) by auto
    with stk lo dm fn show ?thesis unfolding a(2) by (simp add: depth_inv_def)
  next
    assume a: "\<not> 0 \<le> d cur"
      "depth_step g s =
         (rev (map (origin_node g)
                (filter (\<lambda>i. d (origin_node g i) = - 1) (node_inputs g cur))) @ cur # rest, d)"
    from depth_unassigned_function[OF wf inv[unfolded s] a(1)]
    have cf: "cur \<in> set (function_nodes g)" by simp
    have "\<forall>n \<in> set (rev (map (origin_node g)
                (filter (\<lambda>i. d (origin_node g i) = - 1) (node_inputs g cur))) @ cur # rest).
            n \<in> set (nodes g)"
      using stk wf_origin_node[OF wf cf] by auto
    moreover have "\<forall>n \<in> set (function_nodes g). d n = - 1 \<longrightarrow>
        n \<in> set (rev (map (origin_node g)
                (filter (\<lambda>i. d (origin_node g i) = - 1) (node_inputs g cur))) @ cur # rest)"
      using un by auto
    ultimately show ?thesis using lo dm fn unfolding a(2) by (simp add: depth_inv_def)
  next
    let ?mx = "Max (insert 0 (d ` origin_node g ` set (node_inputs g cur)))"
    let ?d' = "d(cur := ?mx + 1)"
    assume a: "\<not> 0 \<le> d cur" "\<forall>i \<in> set (node_inputs g cur). d (origin_node g i) \<noteq> - 1"
      "depth_step g s = (rest, ?d')"
    from depth_unassigned_function[OF wf inv[unfolded s] a(1)]
    have cf: "cur \<in> set (function_nodes g)" and dc: "d cur = - 1" by simp_all
    have mx0: "0 \<le> ?mx" by (rule Max_ge) auto
    have on_ne: "origin_node g i \<noteq> cur" if "i \<in> set (node_inputs g cur)" for i
      using ranked_origin_node[OF rk cf that] by auto
    have lo': "\<forall>n. - 1 \<le> ?d' n" using lo mx0 by auto
    have cnd: "\<not> is_dummy g cur" by (rule wf_function_not_dummy[OF wf cf])
    have dm': "\<forall>n \<in> set (dummy_nodes g). ?d' n = 0"
      using dm cnd wf_dummy_nodes[OF wf] by auto
    have img: "?d' ` origin_node g ` set (node_inputs g cur) = d ` origin_node g ` set (node_inputs g cur)"
      using on_ne by (auto simp: image_iff)
    have cc: "depth_correct g ?d' cur"
      unfolding depth_correct_def img
    proof
      show "\<forall>i \<in> set (node_inputs g cur). 0 \<le> ?d' (origin_node g i)"
      proof
        fix i assume i: "i \<in> set (node_inputs g cur)"
        from a(2) i have "d (origin_node g i) \<noteq> - 1" by blast
        moreover from lo have "- 1 \<le> d (origin_node g i)" by blast
        ultimately have "0 \<le> d (origin_node g i)" by arith
        with on_ne[OF i] show "0 \<le> ?d' (origin_node g i)" by simp
      qed
      show "?d' cur = 1 + ?mx" by simp
    qed
    have fn': "\<forall>n \<in> set (function_nodes g). ?d' n = - 1 \<or> depth_correct g ?d' n"
    proof
      fix n assume n: "n \<in> set (function_nodes g)"
      show "?d' n = - 1 \<or> depth_correct g ?d' n"
      proof (cases "n = cur")
        case True
        with cc show ?thesis by simp
      next
        case False
        from fn n have "d n = - 1 \<or> depth_correct g d n" by blast
        then show ?thesis
        proof
          assume "d n = - 1" with False show ?thesis by simp
        next
          assume dcn: "depth_correct g d n"
          then have nn: "\<forall>i \<in> set (node_inputs g n). origin_node g i \<noteq> cur"
            using dc by (auto simp: depth_correct_def)
          then have "?d' ` origin_node g ` set (node_inputs g n) = d ` origin_node g ` set (node_inputs g n)"
            by (auto simp: image_iff)
          with dcn nn False have "depth_correct g ?d' n"
            by (simp add: depth_correct_def)
          then show ?thesis ..
        qed
      qed
    qed
    have nm: "?mx + 1 \<noteq> - 1" using mx0 by arith
    have un': "\<forall>n \<in> set (function_nodes g). ?d' n = - 1 \<longrightarrow> n \<in> set rest"
    proof (intro ballI impI)
      fix n assume n: "n \<in> set (function_nodes g)" "?d' n = - 1"
      with nm have "n \<noteq> cur" by auto
      with n un show "n \<in> set rest" by auto
    qed
    have stk': "\<forall>n \<in> set rest. n \<in> set (nodes g)" using stk by simp
    show ?thesis unfolding a(3) using stk' lo' dm' fn' un'
      by (simp add: depth_inv_def del: fun_upd_apply)
  qed
qed

lemma depth_step_decreases:
  assumes wf: "wf_network g" and rk: "ranked g r"
    and inv: "depth_inv g s" and run: "fst s \<noteq> []"
  shows "(depth_step g s, s) \<in> measures [depth_m1 g, depth_m2, depth_m3 r]"
proof -
  from run obtain cur rest d where s: "s = (cur # rest, d)"
    by (cases s; cases "fst s") auto
  from inv s have cn: "cur \<in> set (nodes g)" by (auto simp: depth_inv_def)
  from depth_step_cases[OF s, of g] show ?thesis
  proof (elim disjE conjE)
    assume a: "0 \<le> d cur" "depth_step g s = (rest, d)"
    show ?thesis unfolding a(2) unfolding s using a(1)
      by (cases rest) (simp_all add: depth_m1_def depth_m2_def depth_m3_def)
  next
    let ?new = "rev (map (origin_node g)
                (filter (\<lambda>i. d (origin_node g i) = - 1) (node_inputs g cur)))"
    assume a: "\<not> 0 \<le> d cur" "\<exists>i \<in> set (node_inputs g cur). d (origin_node g i) = - 1"
      "depth_step g s = (?new @ cur # rest, d)"
    from depth_unassigned_function[OF wf inv[unfolded s] a(1)]
    have cf: "cur \<in> set (function_nodes g)" by simp
    from a(2) have "filter (\<lambda>i. d (origin_node g i) = - 1) (node_inputs g cur) \<noteq> []"
      by (simp add: filter_empty_conv)
    then have "?new \<noteq> []" by simp
    then obtain x xs where x: "?new = x # xs" by (cases ?new) auto
    then have "x \<in> set ?new" by (metis list.set_intros(1))
    then obtain i where i: "i \<in> set (node_inputs g cur)" "d (origin_node g i) = - 1"
      "x = origin_node g i" by auto
    have lt: "r x < r cur" using ranked_origin_node[OF rk cf i(1)] i(3) by simp
    have dx: "\<not> 0 \<le> d x" using i by simp
    show ?thesis unfolding a(3) x unfolding s using a(1) dx lt
      by (simp add: depth_m1_def depth_m2_def depth_m3_def)
  next
    let ?mx = "Max (insert 0 (d ` origin_node g ` set (node_inputs g cur)))"
    let ?d' = "d(cur := ?mx + 1)"
    assume a: "\<not> 0 \<le> d cur" "depth_step g s = (rest, ?d')"
    from depth_unassigned_function[OF wf inv[unfolded s] a(1)]
    have dc: "d cur = - 1" by simp
    have mx0: "0 \<le> ?mx" by (rule Max_ge) auto
    then have nm: "?mx + 1 \<noteq> - 1" by arith
    have "{n \<in> set (nodes g). ?d' n = - 1} \<subset> {n \<in> set (nodes g). d n = - 1}"
    proof
      show "{n \<in> set (nodes g). ?d' n = - 1} \<subseteq> {n \<in> set (nodes g). d n = - 1}"
        using nm by (auto split: if_splits)
      have "cur \<in> {n \<in> set (nodes g). d n = - 1}" using cn dc by simp
      moreover have "cur \<notin> {n \<in> set (nodes g). ?d' n = - 1}" using nm by simp
      ultimately show "{n \<in> set (nodes g). ?d' n = - 1} \<noteq> {n \<in> set (nodes g). d n = - 1}"
        by blast
    qed
    then have "card {n \<in> set (nodes g). ?d' n = - 1} < card {n \<in> set (nodes g). d n = - 1}"
      by (intro psubset_card_mono) auto
    then show ?thesis unfolding a(2) unfolding s
      by (simp add: depth_m1_def del: fun_upd_apply)
  qed
qed

lemma depth_initial_fold:
  "fold (\<lambda>node depths. depths(node := 0)) ns d0 =
   (\<lambda>n. if n \<in> set ns then (0::int) else d0 n)"
  by (induction ns arbitrary: d0) (auto simp: fun_eq_iff)

lemma depth_inv_initial:
  assumes wf: "wf_network g"
  shows "depth_inv g (rev (function_nodes g),
           fold (\<lambda>node depths. depths(node := 0)) (dummy_nodes g) (\<lambda>_. - 1))"
proof -
  have "n \<notin> set (dummy_nodes g)" if "n \<in> set (function_nodes g)" for n
    using wf_function_not_dummy[OF wf that] wf_dummy_nodes[OF wf] by blast
  then show ?thesis
    by (auto simp: depth_inv_def depth_initial_fold nodes_def)
qed

lemma compute_max_depth_per_node_correct:
  assumes wf: "wf_network g" and rk: "ranked g r"
  shows "\<exists>d. compute_max_depth_per_node g = Some d \<and>
           (\<forall>n \<in> set (dummy_nodes g). d n = 0) \<and>
           (\<forall>n \<in> set (function_nodes g). depth_correct g d n)"
proof -
  let ?b = "\<lambda>(stack, depths :: nat \<Rightarrow> int). stack \<noteq> ([] :: nat list)"
  let ?s0 = "(rev (function_nodes g),
           fold (\<lambda>node depths. depths(node := 0)) (dummy_nodes g) (\<lambda>_. - 1 :: int))"
  have b: "?b s = (fst s \<noteq> [])" for s by (cases s) simp
  have step: "depth_inv g (depth_step g s)" if "depth_inv g s" "?b s" for s
    using depth_step_inv[OF wf rk that(1)] that(2) b by blast
  have "\<exists>t. while_option ?b (depth_step g) ?s0 = Some t"
  proof (rule wf_while_option_Some[where P = "depth_inv g"])
    show "wf {(t, s). (depth_inv g s \<and> ?b s) \<and> t = depth_step g s}"
    proof (rule wf_subset)
      show "wf (measures [depth_m1 g, depth_m2, depth_m3 r])" by (rule wf_measures)
      show "{(t, s). (depth_inv g s \<and> ?b s) \<and> t = depth_step g s}
              \<subseteq> measures [depth_m1 g, depth_m2, depth_m3 r]"
        using depth_step_decreases[OF wf rk] b by blast
    qed
  next
    fix s assume "depth_inv g s" "?b s"
    then show "depth_inv g (depth_step g s)" by (rule step)
  next
    show "depth_inv g ?s0" by (rule depth_inv_initial[OF wf])
  qed
  then obtain t where t: "while_option ?b (depth_step g) ?s0 = Some t" by blast
  have ti: "depth_inv g t"
    by (rule while_option_rule[where P = "depth_inv g", OF _ t depth_inv_initial[OF wf]])
       (rule step)
  have tb: "\<not> ?b t" by (rule while_option_stop[OF t])
  obtain stk d where td: "t = (stk, d)" by (cases t)
  with tb have e: "stk = []" by simp
  from ti td e have "(\<forall>n \<in> set (dummy_nodes g). d n = 0) \<and>
           (\<forall>n \<in> set (function_nodes g). depth_correct g d n)"
    by (auto simp: depth_inv_def)
  moreover have "compute_max_depth_per_node g = Some d"
    using t td by (simp add: compute_max_depth_per_node_def)
  ultimately show ?thesis by blast
qed

subsection \<open>The whole call\<close>

lemma filter_calls:
  "length (filter (\<lambda>e. e = EvCall n) tr) = length (filter (\<lambda>m. m = n) (calls tr))"
  by (induction tr rule: calls.induct) auto

lemma distinct_filter_le_1: "distinct xs \<Longrightarrow> length (filter (\<lambda>m. m = n) xs) \<le> Suc 0"
proof (induction xs)
  case Nil
  then show ?case by simp
next
  case (Cons x xs)
  show ?case
  proof (cases "x = n")
    case True
    with Cons.prems have "n \<notin> set xs" by simp
    then have "filter (\<lambda>m. m = n) xs = []" by (auto simp: filter_empty_conv)
    with True show ?thesis by simp
  next
    case False
    with Cons show ?thesis by simp
  qed
qed

lemma evaluate_network_facts:
  assumes wf: "wf_network g" and rk: "ranked g r" and io: "wf_io g m_inputs m_outputs"
    and c: "copy_inputs_to_storage g m_inputs params (new_storage msk n) = Inr st1"
  shows "\<exists>tr res. evaluate_network_to_compute_outputs g m_outputs st1 = Some (tr, res) \<and>
           distinct (calls tr) \<and>
           (\<forall>st2. res = Inr st2 \<longrightarrow>
              eval_inv g r m_inputs m_outputs (m_value_per_output_id st1) (tr, Inr ([], st2)))"
proof -
  from compute_max_depth_per_node_correct[OF wf rk] obtain d where
    d: "compute_max_depth_per_node g = Some d" by blast
  let ?s0 = "([], Inr (rev m_outputs, st1)) :: 'a eval_state"
  let ?tab0 = "m_value_per_output_id st1"
  have i0: "eval_inv g r m_inputs m_outputs ?tab0 ?s0" by (rule eval_inv_initial[OF io c])
  from eval_loop_terminates[OF wf rk io i0] obtain t where
    t: "while_option eval_running (eval_step g d) ?s0 = Some t" by blast
  from eval_loop_result[OF wf rk io i0 t]
  have ti: "eval_inv g r m_inputs m_outputs ?tab0 t" and tn: "\<not> eval_running t" by simp_all
  obtain tr x where tx: "t = (tr, x)" by (cases t)
  have ev: "evaluate_network_to_compute_outputs g m_outputs st1 = Some (tr, map_sum id snd x)"
    using d t tx by (simp add: evaluate_network_to_compute_outputs_def)
  show ?thesis
  proof (cases x)
    case (Inl e)
    with ti tx have "distinct (calls tr)" by (simp add: eval_inv_def)
    with ev Inl show ?thesis by simp
  next
    case (Inr p)
    obtain stk st2 where p: "p = (stk, st2)" by (cases p)
    with tn tx Inr have e: "stk = []" by (simp add: eval_running_def)
    from ti tx Inr p e have "eval_inv g r m_inputs m_outputs ?tab0 (tr, Inr ([], st2))" by simp
    moreover then have "distinct (calls tr)" by (simp add: eval_inv_def)
    ultimately show ?thesis using ev Inr p by simp
  qed
qed

lemma call_cases:
  assumes "call g m_inputs m_outputs msk params = Some (tr, res)"
  shows "(tr = [] \<and> (msk = [] \<or>
            (\<exists>e. copy_inputs_to_storage g m_inputs params (new_storage msk (socket_id_amount g)) = Inl e))) \<or>
         (msk \<noteq> [] \<and> (\<exists>st1 r'.
            copy_inputs_to_storage g m_inputs params (new_storage msk (socket_id_amount g)) = Inr st1 \<and>
            evaluate_network_to_compute_outputs g m_outputs st1 = Some (tr, r') \<and>
            (case r' of Inl e \<Rightarrow> res = Inl e
             | Inr st2 \<Rightarrow>
                (case copy_computed_values_to_outputs g m_inputs m_outputs st2 params of
                   Inl e \<Rightarrow> res = Inl e
                 | Inr params' \<Rightarrow> res = Inr (params', destruct_storage st2)))))"
  using assms
  by (auto simp: call_def Let_def split: if_splits sum.splits option.splits prod.splits)

lemma call_distinct_calls:
  assumes wf: "wf_network g" and rk: "ranked g r" and io: "wf_io g m_inputs m_outputs"
    and c: "call g m_inputs m_outputs msk params = Some (tr, res)"
  shows "distinct (calls tr)"
  using call_cases[OF c]
proof (elim disjE conjE exE)
  fix st1 r'
  assume a: "copy_inputs_to_storage g m_inputs params (new_storage msk (socket_id_amount g)) = Inr st1"
    "evaluate_network_to_compute_outputs g m_outputs st1 = Some (tr, r')"
  from evaluate_network_facts[OF wf rk io a(1)] a(2) show ?thesis by auto
qed simp_all

lemma call_terminates:
  assumes wf: "wf_network g" and rk: "ranked g r" and io: "wf_io g m_inputs m_outputs"
  shows "\<exists>tr res. call g m_inputs m_outputs msk params = Some (tr, res)"
proof (cases "msk = []")
  case True
  then show ?thesis by (simp add: call_def)
next
  case False
  show ?thesis
  proof (cases "copy_inputs_to_storage g m_inputs params (new_storage msk (socket_id_amount g))")
    case (Inl e)
    with False show ?thesis by (simp add: call_def)
  next
    case (Inr st1)
    from evaluate_network_facts[OF wf rk io Inr] obtain tr r' where
      "evaluate_network_to_compute_outputs g m_outputs st1 = Some (tr, r')" by blast
    with False Inr show ?thesis
      by (auto simp: call_def split: sum.splits)
  qed
qed

subsection \<open>Mask and size of the storage\<close>










subsection \<open>Copying inputs and outputs\<close>







subsection \<open>The examples\<close>

lemma example_wf: "wf_network example_network"
  by (simp add: wf_network_def wf_nodes_def wf_inputs_def wf_outputs_def wf_params_def
                example_network_def sockets_def nodes_def node_outputs_def)

lemma example_ranked: "ranked example_network (\<lambda>n. n)"
  by (simp add: ranked_def example_network_def)

lemma example_io: "wf_io example_network [0, 5] [3, 4]"
  by (simp add: wf_io_def example_network_def sockets_def)

lemma example_trace:
  "map_option fst (call example_network [0, 5] [3, 4] [0, 2] example_params)
     = Some [EvCall 1, EvFinish 1]"
  by code_simp

lemma example_acyclic: "is_acyclic example_network"
  unfolding is_acyclic_def using example_ranked by blast


subsection \<open>The state after any number of iterations\<close>






subsection \<open>Counting finish_input_socket calls\<close>






lemma destruct_fold:
  "fold (\<lambda>id h. case tab id of
                    None \<Rightarrow> h
                  | Some (SingleValue a k) \<Rightarrow> h(a := None)
                  | Some (VectorValue a k) \<Rightarrow> h(a := None)
                  | Some _ \<Rightarrow> h) ids h0 b =
   (if \<exists>id \<in> set ids. \<exists>k. tab id = Some (SingleValue b k) \<or> tab id = Some (VectorValue b k)
    then None else h0 b)"
proof (induction ids arbitrary: h0)
  case Nil
  show ?case by simp
next
  case (Cons x ids)
  show ?case
    by (cases "tab x"; cases "the (tab x)") (auto simp: Cons.IH)
qed

lemma destruct_storage_frees:
  "destruct_storage st b =
   (if \<exists>id < m_size st. \<exists>k. m_value_per_output_id st id = Some (SingleValue b k) \<or>
                              m_value_per_output_id st id = Some (VectorValue b k)
    then None else heap st b)"
  unfolding destruct_storage_def destruct_fold by auto


subsection \<open>Passthrough\<close>






subsection \<open>The chain\<close>

lemma chain_wf: "wf_network chain_network \<and> is_acyclic chain_network \<and> wf_io chain_network [] [3]"
proof -
  have "ranked chain_network (\<lambda>n. n)" by (simp add: ranked_def chain_network_def)
  then have "is_acyclic chain_network" unfolding is_acyclic_def by blast
  moreover have "wf_network chain_network"
    by (simp add: wf_network_def wf_nodes_def wf_inputs_def wf_outputs_def wf_params_def
                  chain_network_def sockets_def nodes_def node_outputs_def)
  moreover have "wf_io chain_network [] [3]"
    by (simp add: wf_io_def chain_network_def sockets_def)
  ultimately show ?thesis by blast
qed

lemma move_then_finish_fails:
  assumes "m_value_per_output_id st (origin g i) = Some (SingleValue a 1)"
    and "out \<noteq> origin g i"
    and "get_mutable_single g st i out = Inr (st', b)"
  shows "finish_input_socket g st' i = Inl SlotIsNull"
  using assms
  by (auto simp: get_mutable_single_def finish_input_socket_def Let_def split: if_splits)

lemma extend_multiple__copy_apply:
  "distinct msk \<Longrightarrow>
   extend_multiple__copy msk src dst j = (if j \<in> set msk then dst j @ src j else dst j)"
  unfolding extend_multiple__copy_def
  by (induction msk arbitrary: dst) (auto simp: extend_single__copy_def)

section \<open>Properties\<close>

text \<open>
  The properties below are stated for a well-formed acyclic network. An assertion of the
  source that fails ends the run with \<open>Inl\<close> of the error; a loop that would run forever
  is the value \<open>None\<close>.
\<close>

text \<open>
  C1. For every acyclic network and every set of requested output sockets, one call of
  \<^verbatim>\<open>MF_EvaluateNetwork::call\<close> calls the body of each function node at most once: the
  trace of the call holds at most one \<open>EvCall n\<close> for every node \<open>n\<close>, also when
  several requested outputs depend on the node and also when the call ends in a failed
  assertion.
\<close>

theorem function_node_called_at_most_once:
  assumes "wf_network g" and "is_acyclic g" and "wf_io g m_inputs m_outputs"
    and "call g m_inputs m_outputs msk params = Some (tr, res)"
  shows "length (filter (\<lambda>e. e = EvCall n) tr) \<le> 1"
proof -
  from assms(2) obtain r where rk: "ranked g r" unfolding is_acyclic_def by blast
  have "distinct (calls tr)" by (rule call_distinct_calls[OF assms(1) rk assms(3,4)])
  then show ?thesis using distinct_filter_le_1[of "calls tr" n] by (simp add: filter_calls)
qed

text \<open>
  The call on \<open>example_network\<close> that requests the sockets 3 and 4 calls node 1 once.
\<close>

theorem function_node_called_at_most_once_witness:
  "wf_network example_network \<and> is_acyclic example_network \<and>
   wf_io example_network [0, 5] [3, 4] \<and>
   (\<exists>res. call example_network [0, 5] [3, 4] [0, 2] example_params
             = Some ([EvCall 1, EvFinish 1], res) \<and>
          length (filter (\<lambda>e. e = EvCall 1) [EvCall 1, EvFinish 1]) \<le> 1)"
proof -
  from example_trace obtain res where
    c: "call example_network [0, 5] [3, 4] [0, 2] example_params
          = Some ([EvCall 1, EvFinish 1], res)"
    by (cases "call example_network [0, 5] [3, 4] [0, 2] example_params") auto
  from function_node_called_at_most_once[OF example_wf example_acyclic example_io c, of 1]
  show ?thesis using example_wf example_acyclic example_io c by blast
qed

text \<open>
  C2. The claim: after the body of a node returns, \<^verbatim>\<open>finish_input_socket\<close> is called once
  for each input socket of the node and finds a slot for the origin of that input, also
  when a mutable parameter re-keyed the slot of the origin to the output socket. On
  \<open>chain_network\<close> the code breaks it: node 1 takes the buffer of socket 0 with one
  remaining user, \<^verbatim>\<open>get_mutable_single\<close> moves the slot to socket 2 and clears socket 0,
  and the \<^verbatim>\<open>finish_input_socket\<close> call for input socket 1 finds no slot: its assertion
  \<^verbatim>\<open>any_value != nullptr\<close> fails.
\<close>

theorem finish_input_after_move_fails:
  "map_option (map_prod id (map_sum id (\<lambda>r. ())))
     (call chain_network [] [3] [0, 1] [SingleBuffer (\<lambda>i. None)])
     = Some ([EvCall 0, EvCall 1, EvFinish 1], Inl SlotIsNull)"
  by code_simp

text \<open>
  C3. \<^verbatim>\<open>get_mutable_single\<close> and \<^verbatim>\<open>get_mutable_vector\<close> move or copy. When the origin
  of the input holds an owned value with one remaining user, the same buffer is re-keyed
  from the origin to the output socket, nothing is allocated and the count becomes the
  number of targets of the output socket. When the count is greater than one, a new buffer
  is allocated and filled with a copy of the shared buffer over the mask, its count is the
  number of targets of the output socket, and the slot of the origin keeps its buffer and
  its count. When the origin holds a value from the caller, a new buffer is allocated and
  filled with a copy of the view over the mask.
\<close>

theorem take_mutable_move_or_copy:
  assumes "out \<noteq> origin g i" and "cpp_type g (origin g i) = cpp_type g out"
    and "heap st (next_addr st) = None" and "distinct (m_mask st)"
  shows
    "(\<forall>a. m_value_per_output_id st (origin g i) = Some (SingleValue a 1) \<longrightarrow>
        (\<exists>st'. get_mutable_single g st i out = Inr (st', a) \<and>
           m_value_per_output_id st' out = Some (SingleValue a (int (length (targets g out)))) \<and>
           m_value_per_output_id st' (origin g i) = None \<and>
           heap st' = heap st \<and> next_addr st' = next_addr st)) \<and>
     (\<forall>a k src. m_value_per_output_id st (origin g i) = Some (SingleValue a k) \<and> 1 < k \<and>
        heap st a = Some (SingleBuffer src) \<longrightarrow>
        (\<exists>st' b dst. get_mutable_single g st i out = Inr (st', b) \<and> b = next_addr st \<and> b \<noteq> a \<and>
           m_value_per_output_id st' out = Some (SingleValue b (int (length (targets g out)))) \<and>
           m_value_per_output_id st' (origin g i) = Some (SingleValue a k) \<and>
           heap st' a = Some (SingleBuffer src) \<and> heap st' b = Some (SingleBuffer dst) \<and>
           (\<forall>j \<in> set (m_mask st). dst j = src j))) \<and>
     (\<forall>v. m_value_per_output_id st (origin g i) = Some (SingleFromCallerValue v) \<longrightarrow>
        (\<exists>st' b dst. get_mutable_single g st i out = Inr (st', b) \<and> b = next_addr st \<and>
           m_value_per_output_id st' out = Some (SingleValue b (int (length (targets g out)))) \<and>
           m_value_per_output_id st' (origin g i) = Some (SingleFromCallerValue v) \<and>
           heap st' b = Some (SingleBuffer dst) \<and> (\<forall>j \<in> set (m_mask st). dst j = v j))) \<and>
     (\<forall>a. m_value_per_output_id st (origin g i) = Some (VectorValue a 1) \<longrightarrow>
        (\<exists>st'. get_mutable_vector g st i out = Inr (st', a) \<and>
           m_value_per_output_id st' out = Some (VectorValue a (int (length (targets g out)))) \<and>
           m_value_per_output_id st' (origin g i) = None \<and>
           heap st' = heap st \<and> next_addr st' = next_addr st)) \<and>
     (\<forall>a k src. m_value_per_output_id st (origin g i) = Some (VectorValue a k) \<and> 1 < k \<and>
        heap st a = Some (VectorArray src) \<longrightarrow>
        (\<exists>st' b dst. get_mutable_vector g st i out = Inr (st', b) \<and> b = next_addr st \<and> b \<noteq> a \<and>
           m_value_per_output_id st' out = Some (VectorValue b (int (length (targets g out)))) \<and>
           m_value_per_output_id st' (origin g i) = Some (VectorValue a k) \<and>
           heap st' a = Some (VectorArray src) \<and> heap st' b = Some (VectorArray dst) \<and>
           (\<forall>j \<in> set (m_mask st). dst j = src j))) \<and>
     (\<forall>w. m_value_per_output_id st (origin g i) = Some (VectorFromCallerValue w) \<longrightarrow>
        (\<exists>st' b dst. get_mutable_vector g st i out = Inr (st', b) \<and> b = next_addr st \<and>
           m_value_per_output_id st' out = Some (VectorValue b (int (length (targets g out)))) \<and>
           m_value_per_output_id st' (origin g i) = Some (VectorFromCallerValue w) \<and>
           heap st' b = Some (VectorArray dst) \<and> (\<forall>j \<in> set (m_mask st). dst j = w j)))"
proof (intro conjI allI impI)
  fix a assume "m_value_per_output_id st (origin g i) = Some (SingleValue a 1)"
  then show "\<exists>st'. get_mutable_single g st i out = Inr (st', a) \<and>
           m_value_per_output_id st' out = Some (SingleValue a (int (length (targets g out)))) \<and>
           m_value_per_output_id st' (origin g i) = None \<and>
           heap st' = heap st \<and> next_addr st' = next_addr st"
    using assms(1,2) by (simp add: get_mutable_single_def Let_def)
next
  fix a k src
  assume "m_value_per_output_id st (origin g i) = Some (SingleValue a k) \<and> 1 < k \<and>
        heap st a = Some (SingleBuffer src)"
  then show "\<exists>st' b dst. get_mutable_single g st i out = Inr (st', b) \<and> b = next_addr st \<and> b \<noteq> a \<and>
           m_value_per_output_id st' out = Some (SingleValue b (int (length (targets g out)))) \<and>
           m_value_per_output_id st' (origin g i) = Some (SingleValue a k) \<and>
           heap st' a = Some (SingleBuffer src) \<and> heap st' b = Some (SingleBuffer dst) \<and>
           (\<forall>j \<in> set (m_mask st). dst j = src j)"
    using assms(1-3)
    by (auto simp: get_mutable_single_def Let_def copy_to_uninitialized_indices_def)
next
  fix v assume "m_value_per_output_id st (origin g i) = Some (SingleFromCallerValue v)"
  then show "\<exists>st' b dst. get_mutable_single g st i out = Inr (st', b) \<and> b = next_addr st \<and>
           m_value_per_output_id st' out = Some (SingleValue b (int (length (targets g out)))) \<and>
           m_value_per_output_id st' (origin g i) = Some (SingleFromCallerValue v) \<and>
           heap st' b = Some (SingleBuffer dst) \<and> (\<forall>j \<in> set (m_mask st). dst j = v j)"
    using assms(1,2)
    by (auto simp: get_mutable_single_def Let_def materialize_to_uninitialized_def)
next
  fix a assume "m_value_per_output_id st (origin g i) = Some (VectorValue a 1)"
  then show "\<exists>st'. get_mutable_vector g st i out = Inr (st', a) \<and>
           m_value_per_output_id st' out = Some (VectorValue a (int (length (targets g out)))) \<and>
           m_value_per_output_id st' (origin g i) = None \<and>
           heap st' = heap st \<and> next_addr st' = next_addr st"
    using assms(1,2) by (simp add: get_mutable_vector_def Let_def)
next
  fix a k src
  assume "m_value_per_output_id st (origin g i) = Some (VectorValue a k) \<and> 1 < k \<and>
        heap st a = Some (VectorArray src)"
  then show "\<exists>st' b dst. get_mutable_vector g st i out = Inr (st', b) \<and> b = next_addr st \<and> b \<noteq> a \<and>
           m_value_per_output_id st' out = Some (VectorValue b (int (length (targets g out)))) \<and>
           m_value_per_output_id st' (origin g i) = Some (VectorValue a k) \<and>
           heap st' a = Some (VectorArray src) \<and> heap st' b = Some (VectorArray dst) \<and>
           (\<forall>j \<in> set (m_mask st). dst j = src j)"
    using assms
    by (auto simp: get_mutable_vector_def Let_def extend_multiple__copy_apply)
next
  fix w assume "m_value_per_output_id st (origin g i) = Some (VectorFromCallerValue w)"
  then show "\<exists>st' b dst. get_mutable_vector g st i out = Inr (st', b) \<and> b = next_addr st \<and>
           m_value_per_output_id st' out = Some (VectorValue b (int (length (targets g out)))) \<and>
           m_value_per_output_id st' (origin g i) = Some (VectorFromCallerValue w) \<and>
           heap st' b = Some (VectorArray dst) \<and> (\<forall>j \<in> set (m_mask st). dst j = w j)"
    using assms extend_multiple__copy_apply[of "m_mask st" w "\<lambda>_. []"]
    by (auto simp: get_mutable_vector_def Let_def extend_multiple__copy_def)
qed

text \<open>
  The three cases on a storage whose socket 0 holds an owned value with one user, an owned
  value with two users, and a view of the caller.
\<close>

theorem take_mutable_move_or_copy_witness:
  "2 \<noteq> origin chain_network 1 \<and>
   cpp_type chain_network (origin chain_network 1) = cpp_type chain_network 2 \<and>
   (\<forall>v. heap (slot_storage v) (next_addr (slot_storage v)) = None \<and>
        distinct (m_mask (slot_storage v))) \<and>
   (\<exists>st'. get_mutable_single chain_network (slot_storage (SingleValue 0 1)) 1 2 = Inr (st', 0) \<and>
      m_value_per_output_id st' 2 = Some (SingleValue 0 1) \<and>
      m_value_per_output_id st' 0 = None \<and> next_addr st' = 1) \<and>
   (\<exists>st' dst. get_mutable_single chain_network (slot_storage (SingleValue 0 2)) 1 2 = Inr (st', 1) \<and>
      m_value_per_output_id st' 2 = Some (SingleValue 1 1) \<and>
      m_value_per_output_id st' 0 = Some (SingleValue 0 2) \<and>
      heap st' 1 = Some (SingleBuffer dst) \<and> dst 0 = Some 7 \<and> dst 1 = Some 7) \<and>
   (\<exists>st' dst. get_mutable_single chain_network
        (slot_storage (SingleFromCallerValue (\<lambda>i. Some (int i)))) 1 2 = Inr (st', 1) \<and>
      m_value_per_output_id st' 2 = Some (SingleValue 1 1) \<and>
      heap st' 1 = Some (SingleBuffer dst) \<and> dst 0 = Some 0 \<and> dst 1 = Some 1)"
proof -
  have h: "2 \<noteq> origin chain_network 1"
    "cpp_type chain_network (origin chain_network 1) = cpp_type chain_network 2"
    by (simp_all add: chain_network_def)
  have f: "heap (slot_storage v) (next_addr (slot_storage v)) = None"
    "distinct (m_mask (slot_storage v))" for v
    by (simp_all add: slot_storage_def)
  have o: "origin chain_network 1 = 0" "int (length (targets chain_network 2)) = 1"
    by (simp_all add: chain_network_def)
  note t = take_mutable_move_or_copy[OF h f, unfolded o]
  have s: "m_value_per_output_id (slot_storage v) 0 = Some v"
    "heap (slot_storage v) 0 = Some (SingleBuffer (\<lambda>i. Some 7))"
    "next_addr (slot_storage v) = 1" "m_mask (slot_storage v) = [0, 1]" for v
    by (simp_all add: slot_storage_def)
  from t[of "SingleValue 0 1"] s[of "SingleValue 0 1"]
  have m: "\<exists>st'. get_mutable_single chain_network (slot_storage (SingleValue 0 1)) 1 2 = Inr (st', 0) \<and>
      m_value_per_output_id st' 2 = Some (SingleValue 0 1) \<and>
      m_value_per_output_id st' 0 = None \<and> next_addr st' = 1"
    by auto
  from t[of "SingleValue 0 2"] s[of "SingleValue 0 2"]
  have c: "\<exists>st' dst. get_mutable_single chain_network (slot_storage (SingleValue 0 2)) 1 2 = Inr (st', 1) \<and>
      m_value_per_output_id st' 2 = Some (SingleValue 1 1) \<and>
      m_value_per_output_id st' 0 = Some (SingleValue 0 2) \<and>
      heap st' 1 = Some (SingleBuffer dst) \<and> dst 0 = Some 7 \<and> dst 1 = Some 7"
    by (auto; fastforce)
  from t[of "SingleFromCallerValue (\<lambda>i. Some (int i))"] s[of "SingleFromCallerValue (\<lambda>i. Some (int i))"]
  have b: "\<exists>st' dst. get_mutable_single chain_network
        (slot_storage (SingleFromCallerValue (\<lambda>i. Some (int i)))) 1 2 = Inr (st', 1) \<and>
      m_value_per_output_id st' 2 = Some (SingleValue 1 1) \<and>
      heap st' 1 = Some (SingleBuffer dst) \<and> dst 0 = Some 0 \<and> dst 1 = Some 1"
    by (auto; fastforce)
  from h f m c b show ?thesis by blast
qed







text \<open>
  C6. On an acyclic network \<^verbatim>\<open>compute_max_depth_per_node\<close> returns. It gives depth 0 to
  every dummy node and, to every function node, one plus the greatest depth of the nodes
  that produce its inputs (the maximum of no depth counts as 0, so a function node without
  inputs has depth 1); every function node has a depth.
\<close>

theorem compute_max_depth_per_node_depths:
  assumes "wf_network g" and "is_acyclic g"
  shows "\<exists>d. compute_max_depth_per_node g = Some d \<and>
           (\<forall>n \<in> set (dummy_nodes g). d n = 0) \<and>
           (\<forall>n \<in> set (function_nodes g).
              d n = 1 + Max (insert 0 ((\<lambda>i. d (socket_node g (origin g i))) ` set (node_inputs g n))))"
proof -
  from assms(2) obtain r where rk: "ranked g r" unfolding is_acyclic_def by blast
  from compute_max_depth_per_node_correct[OF assms(1) rk] obtain d where
    d: "compute_max_depth_per_node g = Some d" "\<forall>n \<in> set (dummy_nodes g). d n = 0"
       "\<forall>n \<in> set (function_nodes g). depth_correct g d n"
    by blast
  have "d n = 1 + Max (insert 0 ((\<lambda>i. d (socket_node g (origin g i))) ` set (node_inputs g n)))"
    if "n \<in> set (function_nodes g)" for n
  proof -
    have "d ` origin_node g ` set (node_inputs g n) =
          (\<lambda>i. d (socket_node g (origin g i))) ` set (node_inputs g n)"
      by (simp add: image_image origin_node_def)
    with d(3) that show ?thesis unfolding depth_correct_def by metis
  qed
  with d(1,2) show ?thesis by blast
qed

theorem compute_max_depth_per_node_depths_witness:
  "wf_network example_network \<and> is_acyclic example_network \<and>
   (\<exists>d. compute_max_depth_per_node example_network = Some d \<and>
      (\<forall>n \<in> set (dummy_nodes example_network). d n = 0) \<and>
      (\<forall>n \<in> set (function_nodes example_network).
         d n = 1 + Max (insert 0 ((\<lambda>i. d (socket_node example_network (origin example_network i)))
                                   ` set (node_inputs example_network n)))))"
  using compute_max_depth_per_node_depths[OF example_wf example_acyclic]
    example_wf example_acyclic by blast



text \<open>
  C8. A value bound by the caller is never changed and never freed by the storage:
  \<^verbatim>\<open>finish_input_socket\<close> on an input whose origin holds it returns the storage as it was;
  the destructor frees exactly the buffers of the owned slots; \<^verbatim>\<open>get_mutable_single\<close> and
  \<^verbatim>\<open>get_mutable_vector\<close> leave the slot of the caller as it is, allocate a new buffer,
  copy the view into it and change no other buffer.
\<close>

theorem caller_values_never_mutated_or_freed:
  "(is_from_caller (m_value_per_output_id st (origin g i)) \<longrightarrow>
      finish_input_socket g st i = Inr st) \<and>
   destruct_storage st b =
     (if \<exists>id < m_size st. \<exists>k. m_value_per_output_id st id = Some (SingleValue b k) \<or>
                                m_value_per_output_id st id = Some (VectorValue b k)
      then None else heap st b) \<and>
   (\<forall>v. m_value_per_output_id st (origin g i) = Some (SingleFromCallerValue v) \<and>
        out \<noteq> origin g i \<and> cpp_type g (origin g i) = cpp_type g out \<longrightarrow>
        (\<exists>st' a dst. get_mutable_single g st i out = Inr (st', a) \<and> a = next_addr st \<and>
           m_value_per_output_id st' (origin g i) = Some (SingleFromCallerValue v) \<and>
           m_value_per_output_id st' out = Some (SingleValue a (int (length (targets g out)))) \<and>
           heap st' a = Some (SingleBuffer dst) \<and> (\<forall>j \<in> set (m_mask st). dst j = v j) \<and>
           (\<forall>c. c \<noteq> a \<longrightarrow> heap st' c = heap st c))) \<and>
   (\<forall>w. m_value_per_output_id st (origin g i) = Some (VectorFromCallerValue w) \<and>
        out \<noteq> origin g i \<and> cpp_type g (origin g i) = cpp_type g out \<longrightarrow>
        (\<exists>st' a. get_mutable_vector g st i out = Inr (st', a) \<and> a = next_addr st \<and>
           m_value_per_output_id st' (origin g i) = Some (VectorFromCallerValue w) \<and>
           m_value_per_output_id st' out = Some (VectorValue a (int (length (targets g out)))) \<and>
           heap st' a = Some (VectorArray (extend_multiple__copy (m_mask st) w (\<lambda>_. []))) \<and>
           (\<forall>c. c \<noteq> a \<longrightarrow> heap st' c = heap st c)))"
proof (intro conjI allI impI)
  assume "is_from_caller (m_value_per_output_id st (origin g i))"
  then show "finish_input_socket g st i = Inr st"
    by (cases "m_value_per_output_id st (origin g i)" rule: is_from_caller.cases)
       (auto simp: finish_input_socket_def)
next
  show "destruct_storage st b =
     (if \<exists>id < m_size st. \<exists>k. m_value_per_output_id st id = Some (SingleValue b k) \<or>
                                m_value_per_output_id st id = Some (VectorValue b k)
      then None else heap st b)"
    by (rule destruct_storage_frees)
next
  fix v
  assume "m_value_per_output_id st (origin g i) = Some (SingleFromCallerValue v) \<and>
        out \<noteq> origin g i \<and> cpp_type g (origin g i) = cpp_type g out"
  then show "\<exists>st' a dst. get_mutable_single g st i out = Inr (st', a) \<and> a = next_addr st \<and>
           m_value_per_output_id st' (origin g i) = Some (SingleFromCallerValue v) \<and>
           m_value_per_output_id st' out = Some (SingleValue a (int (length (targets g out)))) \<and>
           heap st' a = Some (SingleBuffer dst) \<and> (\<forall>j \<in> set (m_mask st). dst j = v j) \<and>
           (\<forall>c. c \<noteq> a \<longrightarrow> heap st' c = heap st c)"
    by (auto simp: get_mutable_single_def Let_def materialize_to_uninitialized_def)
next
  fix w
  assume "m_value_per_output_id st (origin g i) = Some (VectorFromCallerValue w) \<and>
        out \<noteq> origin g i \<and> cpp_type g (origin g i) = cpp_type g out"
  then show "\<exists>st' a. get_mutable_vector g st i out = Inr (st', a) \<and> a = next_addr st \<and>
           m_value_per_output_id st' (origin g i) = Some (VectorFromCallerValue w) \<and>
           m_value_per_output_id st' out = Some (VectorValue a (int (length (targets g out)))) \<and>
           heap st' a = Some (VectorArray (extend_multiple__copy (m_mask st) w (\<lambda>_. []))) \<and>
           (\<forall>c. c \<noteq> a \<longrightarrow> heap st' c = heap st c)"
    by (auto simp: get_mutable_vector_def Let_def extend_multiple__copy_def)
qed

theorem caller_values_never_mutated_or_freed_witness:
  "is_from_caller (m_value_per_output_id (slot_storage (SingleFromCallerValue (\<lambda>i. Some (int i))))
      (origin chain_network 1)) \<and>
   finish_input_socket chain_network (slot_storage (SingleFromCallerValue (\<lambda>i. Some (int i)))) 1
     = Inr (slot_storage (SingleFromCallerValue (\<lambda>i. Some (int i)))) \<and>
   destruct_storage (slot_storage (SingleFromCallerValue (\<lambda>i. Some (int i)))) 0
     = heap (slot_storage (SingleFromCallerValue (\<lambda>i. Some (int i)))) 0"
proof -
  let ?st = "slot_storage (SingleFromCallerValue (\<lambda>i. Some (int i)))"
  have a: "is_from_caller (m_value_per_output_id ?st (origin chain_network 1))"
    by (simp add: slot_storage_def chain_network_def)
  have n: "\<not> (\<exists>id < m_size ?st. \<exists>k. m_value_per_output_id ?st id = Some (SingleValue 0 k) \<or>
                                m_value_per_output_id ?st id = Some (VectorValue 0 k))"
    by (auto simp: slot_storage_def)
  from caller_values_never_mutated_or_freed[of ?st chain_network 1 0 2] a n
  show ?thesis by simp
qed



text \<open>
  C10. If the index mask is empty, \<^verbatim>\<open>call\<close> returns at once: no storage is built and
  nothing is allocated, no body is called and no \<^verbatim>\<open>finish_input_socket\<close> is made (the
  trace is empty), and the parameters of the caller, its output destinations among them,
  are as they were passed.
\<close>

theorem call_empty_mask_returns_immediately:
  "call g m_inputs m_outputs [] params = Some ([], Inr (params, (\<lambda>_. None)))"
  by (simp add: call_def)

end
